theory Spec2Isabelle
  imports Main
begin

unbundle bit_operations_syntax

section \<open>Text and bytes\<close>

text \<open>
  The two programs of the repository, \<^verbatim>\<open>pack_basic.py\<close> (textual compaction of BASIC
  source) and \<^verbatim>\<open>tokenize_basic.py\<close> (binary tokenization), work on Python strings and
  on byte arrays. A Python \<^verbatim>\<open>str\<close> is a sequence of code points, so it is modelled as a
  list of natural numbers; \<open>S\<close> turns a HOL string literal into such a list. A byte is a
  natural number below 256; \<^verbatim>\<open>bytearray.append\<close> raises \<^verbatim>\<open>ValueError\<close> above that.

  The methods of \<^verbatim>\<open>str\<close> that the programs call (\<^verbatim>\<open>upper\<close>, \<^verbatim>\<open>isdigit\<close>, \<^verbatim>\<open>isalpha\<close>,
  \<^verbatim>\<open>startswith\<close>, \<^verbatim>\<open>strip\<close>, \<^verbatim>\<open>rstrip\<close>, \<^verbatim>\<open>lstrip(' ')\<close>) are modelled on the
  ASCII range, which is the source format of both programs. Python's white space is
  modelled in full (\<open>py_isspace\<close>); case mapping, digits and letters outside ASCII are not:
  \<open>upper_char\<close> leaves a code point above 127 unchanged and \<open>py_isdigit\<close>, \<open>py_isalpha\<close>
  are false there.
\<close>

type_synonym pystr = "nat list"
type_synonym byte = nat

definition S :: "string \<Rightarrow> pystr" where
  "S s = map of_char s"

abbreviation DQUOTE :: nat where "DQUOTE \<equiv> 34"
abbreviation SQUOTE :: nat where "SQUOTE \<equiv> 39"
abbreviation SPACE :: nat where "SPACE \<equiv> 32"
abbreviation COLON :: nat where "COLON \<equiv> 58"
abbreviation SEMICOLON :: nat where "SEMICOLON \<equiv> 59"
abbreviation COMMA :: nat where "COMMA \<equiv> 44"
abbreviation TAB :: nat where "TAB \<equiv> 9"
abbreviation BACKSLASH :: nat where "BACKSLASH \<equiv> 92"

datatype py_error = ValueError

definition upper_char :: "nat \<Rightarrow> nat" where
  "upper_char c = (if 97 \<le> c \<and> c \<le> 122 then c - 32 else c)"

definition py_upper :: "pystr \<Rightarrow> pystr" where
  "py_upper s = map upper_char s"

definition py_isdigit :: "nat \<Rightarrow> bool" where
  "py_isdigit c = (48 \<le> c \<and> c \<le> 57)"

definition py_isalpha :: "nat \<Rightarrow> bool" where
  "py_isalpha c = ((65 \<le> c \<and> c \<le> 90) \<or> (97 \<le> c \<and> c \<le> 122))"

definition py_isspace :: "nat \<Rightarrow> bool" where
  "py_isspace c = ((9 \<le> c \<and> c \<le> 13) \<or> (28 \<le> c \<and> c \<le> 32) \<or> c = 133 \<or> c = 160
      \<or> c = 5760 \<or> (8192 \<le> c \<and> c \<le> 8202) \<or> c = 8232 \<or> c = 8233 \<or> c = 8239
      \<or> c = 8287 \<or> c = 12288)"

definition startswith :: "pystr \<Rightarrow> pystr \<Rightarrow> bool" where
  "startswith s p = (take (length p) s = p)"

definition py_rstrip :: "pystr \<Rightarrow> pystr" where
  "py_rstrip s = rev (dropWhile py_isspace (rev s))"

definition py_strip :: "pystr \<Rightarrow> pystr" where
  "py_strip s = py_rstrip (dropWhile py_isspace s)"

text \<open>
  The value of a run of ASCII digits and the decimal digits of a natural number.
\<close>

definition int_of_digits :: "pystr \<Rightarrow> nat" where
  "int_of_digits ds = foldl (\<lambda>acc d. 10 * acc + (d - 48)) 0 ds"

fun py_str :: "nat \<Rightarrow> pystr" where
  "py_str n = (if n < 10 then [48 + n] else py_str (n div 10) @ [48 + n mod 10])"

declare py_str.simps [simp del]

text \<open>
  \<^verbatim>\<open>int(s)\<close> on a run of ASCII digits and \<^verbatim>\<open>str(n)\<close> on a natural number. Both
  conversions raise \<^verbatim>\<open>ValueError\<close> when the decimal text has more digits than the limit
  \<^verbatim>\<open>sys.int_info.default_max_str_digits\<close>, which is 4300 (Python 3.11 and later, unless
  the limit is reconfigured).
\<close>

definition max_str_digits :: nat where
  "max_str_digits = 4300"

definition py_int_digits :: "pystr \<Rightarrow> py_error + nat" where
  "py_int_digits ds =
     (if length ds > max_str_digits then Inl ValueError else Inr (int_of_digits ds))"

definition py_str_checked :: "nat \<Rightarrow> py_error + pystr" where
  "py_str_checked n =
     (if length (py_str n) > max_str_digits then Inl ValueError else Inr (py_str n))"

section \<open>The tokenizer (\<^verbatim>\<open>tokenize_basic.py\<close>)\<close>

text \<open>
  The token table \<^verbatim>\<open>TOKENS\<close>: keyword or operator spelling to token byte, in the order
  of the source (the bytes run from 0x80 to 0xFF). The last two spellings are the
  backslash and the single quote.
\<close>

definition TOKENS :: "(pystr \<times> byte) list" where
  "TOKENS = [
    (S ''END'', 0x80), (S ''FOR'', 0x81), (S ''NEXT'', 0x82), (S ''DATA'', 0x83),
    (S ''INPUT'', 0x84), (S ''DIM'', 0x85), (S ''READ'', 0x86), (S ''LET'', 0x87),
    (S ''GOTO'', 0x88), (S ''RUN'', 0x89), (S ''IF'', 0x8A), (S ''RESTORE'', 0x8B),
    (S ''GOSUB'', 0x8C), (S ''RETURN'', 0x8D), (S ''REM'', 0x8E), (S ''STOP'', 0x8F),
    (S ''WIDTH'', 0x90), (S ''ELSE'', 0x91), (S ''LINE'', 0x92), (S ''EDIT'', 0x93),
    (S ''ERROR'', 0x94), (S ''RESUME'', 0x95), (S ''OUT'', 0x96), (S ''ON'', 0x97),
    (S ''DSKO$'', 0x98), (S ''OPEN'', 0x99), (S ''CLOSE'', 0x9A), (S ''LOAD'', 0x9B),
    (S ''MERGE'', 0x9C), (S ''FILES'', 0x9D), (S ''SAVE'', 0x9E), (S ''LFILES'', 0x9F),
    (S ''LPRINT'', 0xA0), (S ''DEF'', 0xA1), (S ''POKE'', 0xA2), (S ''PRINT'', 0xA3),
    (S ''CONT'', 0xA4), (S ''LIST'', 0xA5), (S ''LLIST'', 0xA6), (S ''CLEAR'', 0xA7),
    (S ''CLOAD'', 0xA8), (S ''CSAVE'', 0xA9), (S ''TIME$'', 0xAA), (S ''DATE$'', 0xAB),
    (S ''DAY$'', 0xAC), (S ''COM'', 0xAD), (S ''MDM'', 0xAE), (S ''KEY'', 0xAF),
    (S ''CLS'', 0xB0), (S ''BEEP'', 0xB1), (S ''SOUND'', 0xB2), (S ''LCOPY'', 0xB3),
    (S ''PSET'', 0xB4), (S ''PRESET'', 0xB5), (S ''MOTOR'', 0xB6), (S ''MAX'', 0xB7),
    (S ''POWER'', 0xB8), (S ''CALL'', 0xB9), (S ''MENU'', 0xBA), (S ''IPL'', 0xBB),
    (S ''NAME'', 0xBC), (S ''KILL'', 0xBD), (S ''SCREEN'', 0xBE), (S ''NEW'', 0xBF),
    (S ''TAB('', 0xC0), (S ''TO'', 0xC1), (S ''USING'', 0xC2), (S ''VARPTR'', 0xC3),
    (S ''ERL'', 0xC4), (S ''ERR'', 0xC5), (S ''STRING$'', 0xC6), (S ''INSTR'', 0xC7),
    (S ''DSKI$'', 0xC8), (S ''INKEY$'', 0xC9), (S ''CSRLIN'', 0xCA), (S ''OFF'', 0xCB),
    (S ''HIMEM'', 0xCC), (S ''THEN'', 0xCD), (S ''NOT'', 0xCE), (S ''STEP'', 0xCF),
    (S ''+'', 0xD0), (S ''-'', 0xD1), (S ''*'', 0xD2), (S ''/'', 0xD3),
    (S ''^'', 0xD4), (S ''AND'', 0xD5), (S ''OR'', 0xD6), (S ''XOR'', 0xD7),
    (S ''EQV'', 0xD8), (S ''IMP'', 0xD9), (S ''MOD'', 0xDA), ([92], 0xDB),
    (S ''>'', 0xDC), (S ''='', 0xDD), (S ''<'', 0xDE), (S ''SGN'', 0xDF),
    (S ''INT'', 0xE0), (S ''ABS'', 0xE1), (S ''FRE'', 0xE2), (S ''INP'', 0xE3),
    (S ''LPOS'', 0xE4), (S ''POS'', 0xE5), (S ''SQR'', 0xE6), (S ''RND'', 0xE7),
    (S ''LOG'', 0xE8), (S ''EXP'', 0xE9), (S ''COS'', 0xEA), (S ''SIN'', 0xEB),
    (S ''TAN'', 0xEC), (S ''ATN'', 0xED), (S ''PEEK'', 0xEE), (S ''EOF'', 0xEF),
    (S ''LOC'', 0xF0), (S ''LOF'', 0xF1), (S ''CINT'', 0xF2), (S ''CSNG'', 0xF3),
    (S ''CDBL'', 0xF4), (S ''FIX'', 0xF5), (S ''LEN'', 0xF6), (S ''STR$'', 0xF7),
    (S ''VAL'', 0xF8), (S ''ASC'', 0xF9), (S ''CHR$'', 0xFA), (S ''SPACE$'', 0xFB),
    (S ''LEFT$'', 0xFC), (S ''RIGHT$'', 0xFD), (S ''MID$'', 0xFE), ([39], 0xFF)]"

definition token_of :: "pystr \<Rightarrow> byte option" where
  "token_of k = map_of TOKENS k"

definition bytearray_append :: "byte list \<Rightarrow> nat \<Rightarrow> py_error + byte list" where
  "bytearray_append tokenized v = (if v < 256 then Inr (tokenized @ [v]) else Inl ValueError)"

text \<open>
  The inner \<^verbatim>\<open>for keyword_len in range(min(10, len(ascii_code) - i), 0, -1)\<close>: the
  longest candidate first; the result is the matched length, the upper-cased candidate
  and its token.
\<close>

fun match_keyword :: "nat \<Rightarrow> pystr \<Rightarrow> (nat \<times> pystr \<times> byte) option" where
  "match_keyword 0 rest = None"
| "match_keyword (Suc n) rest =
     (let candidate = take (Suc n) rest;
          upper_candidate = py_upper candidate
      in case token_of upper_candidate of
           Some token \<Rightarrow> Some (Suc n, upper_candidate, token)
         | None \<Rightarrow> match_keyword n rest)"

text \<open>
  The special handling of \<^verbatim>\<open>ELSE\<close>, run after the token was appended:
  \<^verbatim>\<open>if len(tokenized) > 1 and tokenized[-2] != 0x3A: tokenized.insert(-1, 0x3A)\<close>.
\<close>

definition else_colon :: "pystr \<Rightarrow> byte list \<Rightarrow> byte list" where
  "else_colon upper_candidate tokenized =
     (if upper_candidate = S ''ELSE''
      then (if length tokenized > 1 \<and> tokenized ! (length tokenized - 2) \<noteq> 0x3A
            then butlast tokenized @ [0x3A, last tokenized]
            else tokenized)
      else tokenized)"

lemma match_keyword_bounds:
  "match_keyword n rest = Some (k, u, t) \<Longrightarrow> 1 \<le> k \<and> k \<le> n"
  by (induction n) (auto simp: Let_def split: option.splits)

declare match_keyword.simps [simp del]

text \<open>
  The main loop of \<^verbatim>\<open>tokenize_line\<close>. The index \<open>i\<close> of the source is the split of the
  line into the characters already read and \<open>rest\<close>; \<open>prev\<close> is \<^verbatim>\<open>ascii_code[i-1]\<close>
  (\<open>None\<close> when \<open>i = 0\<close>).
\<close>

function tokenize_loop :: "nat option \<Rightarrow> pystr \<Rightarrow> bool \<Rightarrow> byte list \<Rightarrow> py_error + byte list" where
  "tokenize_loop prev [] in_string tokenized = Inr tokenized"
| "tokenize_loop prev (c # rest) in_string tokenized =
     (if c = DQUOTE \<and> prev \<noteq> Some BACKSLASH
      then tokenize_loop (Some c) rest (\<not> in_string) (tokenized @ [DQUOTE])
      else if c = SQUOTE \<and> \<not> in_string
      then Inr (tokenized @ [0x3A, 0x8E, 0xFF])
      else if in_string
      then (case bytearray_append tokenized c of
              Inl e \<Rightarrow> Inl e
            | Inr tokenized' \<Rightarrow> tokenize_loop (Some c) rest in_string tokenized')
      else (case match_keyword (min 10 (length (c # rest))) (c # rest) of
              Some (keyword_len, upper_candidate, token) \<Rightarrow>
                tokenize_loop (Some ((c # rest) ! (keyword_len - 1))) (drop keyword_len (c # rest))
                  in_string (else_colon upper_candidate (tokenized @ [token]))
            | None \<Rightarrow>
                (case bytearray_append tokenized c of
                   Inl e \<Rightarrow> Inl e
                 | Inr tokenized' \<Rightarrow> tokenize_loop (Some c) rest in_string tokenized')))"
  by pat_completeness auto
termination
  by (relation "measure (\<lambda>(prev, code, in_string, tokenized). length code)")
     (auto dest: match_keyword_bounds)

declare tokenize_loop.simps [simp del]

definition tokenize_line :: "pystr \<Rightarrow> py_error + byte list" where
  "tokenize_line ascii_code = tokenize_loop None ascii_code False []"

subsection \<open>Reading the lines: \<^verbatim>\<open>parse_line\<close> and the first loop of \<^verbatim>\<open>create_tokenized_file\<close>\<close>

text \<open>
  \<^verbatim>\<open>int(parts[0])\<close>: white space around, an optional sign, then decimal digits, with
  single underscores allowed between digits; anything else raises \<^verbatim>\<open>ValueError\<close>, and
  so does a number of more than 4300 digits. The white space that \<^verbatim>\<open>int\<close> skips is
  TAB, LF, VT, FF, CR and the space, and the Unicode white space above ASCII; the
  separators U+001C to U+001F, which \<^verbatim>\<open>str.strip\<close> removes, are not skipped.
\<close>

definition int_isspace :: "nat \<Rightarrow> bool" where
  "int_isspace c = ((9 \<le> c \<and> c \<le> 13) \<or> c = SPACE \<or> (127 \<le> c \<and> py_isspace c))"

definition int_strip :: "pystr \<Rightarrow> pystr" where
  "int_strip s = rev (dropWhile int_isspace (rev (dropWhile int_isspace s)))"

fun digits_ok :: "pystr \<Rightarrow> bool" where
  "digits_ok [] = False"
| "digits_ok [d] = py_isdigit d"
| "digits_ok (d # u # rest) =
     (py_isdigit d \<and> (if u = 95 then digits_ok rest else digits_ok (u # rest)))"

definition py_int :: "pystr \<Rightarrow> py_error + int" where
  "py_int s =
     (let t = int_strip s;
          negative = (t \<noteq> [] \<and> hd t = 45);
          body = (if t \<noteq> [] \<and> (hd t = 45 \<or> hd t = 43) then tl t else t);
          digits = filter (\<lambda>c. c \<noteq> 95) body
      in if digits_ok body \<and> length digits \<le> max_str_digits
         then (let v = int (int_of_digits digits)
               in Inr (if negative then - v else v))
         else Inl ValueError)"

text \<open>\<^verbatim>\<open>parts = line.split(' ', 1)\<close>: the label is the text before the first space.\<close>

definition parse_line :: "pystr \<Rightarrow> py_error + (int \<times> pystr)" where
  "parse_line line =
     (let label = takeWhile (\<lambda>c. c \<noteq> SPACE) line;
          code = drop (length label + 1) line
      in case py_int label of
           Inl e \<Rightarrow> Inl e
         | Inr line_number \<Rightarrow> Inr (line_number, code))"

definition rstrip_newline :: "pystr \<Rightarrow> pystr" where
  "rstrip_newline line = rev (dropWhile (\<lambda>c. c = 13 \<or> c = 10) (rev line))"

text \<open>
  The loop over the lines read: blank lines are skipped, and so is every line on which
  \<^verbatim>\<open>parse_line\<close> or \<^verbatim>\<open>tokenize_line\<close> raises \<^verbatim>\<open>ValueError\<close> (the \<^verbatim>\<open>except\<close> branch
  prints a warning and continues).
\<close>

fun tokenized_lines_of :: "pystr list \<Rightarrow> (int \<times> byte list) list" where
  "tokenized_lines_of [] = []"
| "tokenized_lines_of (raw # lines) =
     (let line = rstrip_newline raw
      in if py_strip line = [] then tokenized_lines_of lines
         else (case parse_line line of
                 Inl e \<Rightarrow> tokenized_lines_of lines
               | Inr (line_number, code) \<Rightarrow>
                   (case tokenize_line code of
                      Inl e \<Rightarrow> tokenized_lines_of lines
                    | Inr tokenized_code \<Rightarrow>
                        (line_number, tokenized_code) # tokenized_lines_of lines)))"

subsection \<open>The binary encoder: the second half of \<^verbatim>\<open>create_tokenized_file\<close>\<close>

text \<open>
  \<^verbatim>\<open>next_address & 0xFF\<close> and \<^verbatim>\<open>(next_address >> 8) & 0xFF\<close> on Python integers, which are
  unbounded: the masks keep the low sixteen bits of the address and of the line number.
\<close>

definition low_byte :: "int \<Rightarrow> byte" where
  "low_byte v = nat (v AND 0xFF)"

definition high_byte :: "int \<Rightarrow> byte" where
  "high_byte v = nat (drop_bit 8 v AND 0xFF)"

fun calc_addresses :: "int \<Rightarrow> (int \<times> byte list) list \<Rightarrow> int list \<times> int" where
  "calc_addresses temp_address [] = ([], temp_address)"
| "calc_addresses temp_address ((line_number, tokenized_code) # rest) =
     (let line_size = 2 + 2 + int (length tokenized_code) + 1;
          (line_addresses, final_address) = calc_addresses (temp_address + line_size) rest
      in (temp_address # line_addresses, final_address))"

definition write_line :: "int list \<Rightarrow> int \<Rightarrow> (int \<times> byte list) list \<Rightarrow> nat \<Rightarrow> byte list" where
  "write_line line_addresses temp_address tokenized_lines i =
     (let (line_number, tokenized_code) = tokenized_lines ! i;
          next_address = (if i + 1 < length tokenized_lines then line_addresses ! (i + 1)
                          else temp_address)
      in [low_byte next_address, high_byte next_address,
          low_byte line_number, high_byte line_number] @ tokenized_code @ [0x00])"

definition encode_lines :: "int \<Rightarrow> (int \<times> byte list) list \<Rightarrow> byte list" where
  "encode_lines base_address tokenized_lines =
     (let (line_addresses, temp_address) = calc_addresses base_address tokenized_lines
      in concat (map (write_line line_addresses temp_address tokenized_lines)
                     [0..<length tokenized_lines]))"

definition create_tokenized_file :: "pystr list \<Rightarrow> int \<Rightarrow> byte list" where
  "create_tokenized_file lines base_address = encode_lines base_address (tokenized_lines_of lines)"

text \<open>
  The record layout of the specification: the successor address of line \<open>k\<close> is the base
  address plus the sizes of the records up to and including \<open>k\<close>, each \<open>5 + p\<close> bytes
  for a payload of \<open>p\<close> bytes.
\<close>

definition record_size :: "int \<times> byte list \<Rightarrow> int" where
  "record_size l = 5 + int (length (snd l))"

definition successor_address :: "int \<Rightarrow> (int \<times> byte list) list \<Rightarrow> nat \<Rightarrow> int" where
  "successor_address B ls k = B + (\<Sum>j<Suc k. record_size (ls ! j))"

definition u16_le :: "int \<Rightarrow> byte list" where
  "u16_le v = [nat (v mod 256), nat (v div 256)]"

definition expected_record :: "int \<Rightarrow> (int \<times> byte list) list \<Rightarrow> nat \<Rightarrow> byte list" where
  "expected_record B ls k =
     u16_le (successor_address B ls k mod 65536) @ u16_le (fst (ls ! k) mod 65536)
       @ snd (ls ! k) @ [0]"

text \<open>
  Decoding with the formula of the specification: a record starts at the successor
  address of the one before it (the first at the base address), its two header words are
  little-endian, and its payload runs up to the terminator byte before the successor
  address.
\<close>

function decode_records :: "int \<Rightarrow> byte list \<Rightarrow> (int \<times> byte list) list" where
  "decode_records addr bs =
     (case bs of
        a0 # a1 # n0 # n1 # rest \<Rightarrow>
          (let next_addr = int a0 + 256 * int a1;
               rec_len = next_addr - addr
           in if 5 \<le> rec_len \<and> rec_len \<le> int (length bs)
              then (int n0 + 256 * int n1, take (nat rec_len - 5) rest)
                     # decode_records next_addr (drop (nat rec_len) bs)
              else [])
      | _ \<Rightarrow> [])"
  by pat_completeness auto
termination
  by (relation "measure (\<lambda>(addr, bs). length bs)") auto

declare decode_records.simps [simp del]

section \<open>The packer (\<^verbatim>\<open>pack_basic.py\<close>)\<close>

subsection \<open>\<^verbatim>\<open>remove_comment\<close>\<close>

text \<open>
  The inner loop that backtracks over the result when the comment quote is found:
  \<^verbatim>\<open>while result and (result[-1] == ' ' or result[-1] == ':')\<close>, popping spaces and
  stopping after the first colon popped.
\<close>

function backtrack_colon :: "pystr \<Rightarrow> pystr" where
  "backtrack_colon result =
     (if result \<noteq> [] \<and> (last result = SPACE \<or> last result = COLON)
      then (if last result = COLON then butlast result
            else backtrack_colon (butlast result))
      else result)"
  by pat_completeness auto
termination
  by (relation "measure length") auto

declare backtrack_colon.simps [simp del]

fun remove_comment_loop :: "pystr \<Rightarrow> bool \<Rightarrow> pystr \<Rightarrow> pystr" where
  "remove_comment_loop [] in_string result = result"
| "remove_comment_loop (c # rest) in_string result =
     (if c = DQUOTE then remove_comment_loop rest (\<not> in_string) (result @ [c])
      else if c = SQUOTE \<and> \<not> in_string then backtrack_colon result
      else remove_comment_loop rest in_string (result @ [c]))"

definition remove_comment :: "pystr \<Rightarrow> pystr" where
  "remove_comment line = py_rstrip (remove_comment_loop line False [])"

subsection \<open>\<^verbatim>\<open>pack_spaces\<close>\<close>

fun pack_spaces_loop :: "pystr \<Rightarrow> bool \<Rightarrow> pystr \<Rightarrow> pystr" where
  "pack_spaces_loop [] in_string result = result"
| "pack_spaces_loop (c # rest) in_string result =
     (if c = DQUOTE then pack_spaces_loop rest (\<not> in_string) (result @ [c])
      else if in_string then pack_spaces_loop rest in_string (result @ [c])
      else if c = SPACE
      then (let remaining = dropWhile (\<lambda>x. x = SPACE) rest
            in if remaining = [] then pack_spaces_loop rest in_string result
               else if startswith (py_upper remaining) (S ''AND'')
                       \<or> startswith (py_upper remaining) (S ''OR'')
               then (if result = [] \<or> last result \<noteq> SPACE
                     then pack_spaces_loop rest in_string (result @ [SPACE])
                     else pack_spaces_loop rest in_string result)
               else pack_spaces_loop rest in_string result)
      else pack_spaces_loop rest in_string (result @ [c]))"

definition pack_spaces :: "pystr \<Rightarrow> pystr" where
  "pack_spaces line =
     (let packed = pack_spaces_loop line False []
      in if startswith (py_upper packed) (S ''DATA'') \<and> length packed > 4 \<and> packed ! 4 \<noteq> SPACE
         then S ''DATA '' @ drop 4 packed
         else packed)"

subsection \<open>\<^verbatim>\<open>remove_trailing_quote\<close>\<close>

text \<open>The loop that toggles \<^verbatim>\<open>in_string\<close> at every double quote of the line.\<close>

fun quote_state :: "pystr \<Rightarrow> bool \<Rightarrow> bool" where
  "quote_state [] in_string = in_string"
| "quote_state (c # rest) in_string =
     quote_state rest (if c = DQUOTE then \<not> in_string else in_string)"

definition endswith_quote :: "pystr \<Rightarrow> bool" where
  "endswith_quote s = (s \<noteq> [] \<and> last s = DQUOTE)"

definition remove_trailing_quote :: "pystr \<Rightarrow> pystr" where
  "remove_trailing_quote line =
     (if line = [] then line
      else if \<not> endswith_quote (py_rstrip line) then line
      else if \<not> quote_state line False \<and> endswith_quote (py_rstrip line)
      then butlast (py_rstrip line)
      else line)"

subsection \<open>\<^verbatim>\<open>remove_print_semicolons\<close>\<close>

text \<open>
  The test on what follows a semicolon inside \<^verbatim>\<open>PRINT\<close>: \<open>next_upper\<close> is the upper-cased
  line from the first character that is not a space.
\<close>

definition starts_expression :: "pystr \<Rightarrow> bool" where
  "starts_expression next_upper =
     (startswith next_upper (S ''CHR$'') \<or> startswith next_upper (S ''STRING$'')
      \<or> startswith next_upper [DQUOTE]
      \<or> (py_isalpha (hd next_upper) \<and> \<not> startswith next_upper (S ''ELSE'')))"

function remove_print_semicolons_loop :: "pystr \<Rightarrow> bool \<Rightarrow> bool \<Rightarrow> pystr \<Rightarrow> pystr" where
  "remove_print_semicolons_loop [] in_string in_print result = result"
| "remove_print_semicolons_loop (c # rest) in_string in_print result =
     (if c = DQUOTE
      then remove_print_semicolons_loop rest (\<not> in_string) in_print (result @ [c])
      else if in_string
      then remove_print_semicolons_loop rest in_string in_print (result @ [c])
      else if startswith (py_upper (c # rest)) (S ''PRINT'')
      then remove_print_semicolons_loop (drop 5 (c # rest)) in_string True
             (result @ take 5 (c # rest))
      else if in_print \<and> c = COLON
      then remove_print_semicolons_loop rest in_string False (result @ [c])
      else if in_print \<and> c = SEMICOLON
      then (let after = dropWhile (\<lambda>x. x = SPACE) rest
            in if after = [] \<or> hd after = COLON
               then remove_print_semicolons_loop rest in_string in_print (result @ [c])
               else (let result_str = py_rstrip result
                     in if result_str \<noteq> [] \<and> (last result_str = 41 \<or> last result_str = DQUOTE)
                           \<and> starts_expression (py_upper after)
                        then remove_print_semicolons_loop rest in_string in_print result
                        else remove_print_semicolons_loop rest in_string in_print (result @ [c])))
      else remove_print_semicolons_loop rest in_string in_print (result @ [c]))"
  by pat_completeness auto
termination
  by (relation "measure (\<lambda>(line, in_string, in_print, result). length line)") auto

declare remove_print_semicolons_loop.simps [simp del]

definition remove_print_semicolons :: "pystr \<Rightarrow> pystr" where
  "remove_print_semicolons line = remove_print_semicolons_loop line False False []"

subsection \<open>Jump keywords and their operands\<close>

text \<open>
  \<^verbatim>\<open>for keyword in ['GOTO', 'GOSUB', 'THEN', 'ELSE']: if remaining.startswith(keyword)\<close>:
  the first keyword of the list that the upper-cased rest of the line starts with.
\<close>

definition jump_keywords :: "pystr list" where
  "jump_keywords = [S ''GOTO'', S ''GOSUB'', S ''THEN'', S ''ELSE'']"

definition first_keyword :: "pystr \<Rightarrow> pystr option" where
  "first_keyword remaining = find (startswith remaining) jump_keywords"

text \<open>
  The loop after a keyword in \<^verbatim>\<open>find_line_targets\<close>: every run of digits is read with
  \<^verbatim>\<open>int\<close> and added to \<^verbatim>\<open>targets\<close>, commas, spaces and tabs are skipped, anything else
  ends the loop. The result is the set of targets and the rest of the line, or the
  \<^verbatim>\<open>ValueError\<close> that \<^verbatim>\<open>int\<close> raised.
\<close>

function number_run :: "pystr \<Rightarrow> nat set \<Rightarrow> py_error + (nat set \<times> pystr)" where
  "number_run [] targets = Inr (targets, [])"
| "number_run (c # rest) targets =
     (if py_isdigit c
      then (case py_int_digits (c # takeWhile py_isdigit rest) of
              Inl e \<Rightarrow> Inl e
            | Inr n \<Rightarrow> number_run (dropWhile py_isdigit rest) (insert n targets))
      else if c = COMMA \<or> c = SPACE \<or> c = TAB then number_run rest targets
      else Inr (targets, c # rest))"
  by pat_completeness auto
termination
  by (relation "measure (\<lambda>(code, targets). length code)")
     (auto simp: less_Suc_eq_le length_dropWhile_le)

declare number_run.simps [simp del]

lemma number_run_length:
  "number_run s targets = Inr (targets', r) \<Longrightarrow> length r \<le> length s"
proof (induction s targets rule: number_run.induct)
  case (1 targets)
  then show ?case by (simp add: number_run.simps)
next
  case (2 c rest targets)
  have "length (dropWhile py_isdigit rest) \<le> length rest"
    by (rule length_dropWhile_le)
  with 2 show ?case
    by (auto simp: number_run.simps(2)[of c rest targets] split: if_splits sum.splits)
qed

lemma first_keyword_length: "first_keyword r = Some k \<Longrightarrow> 4 \<le> length k"
  by (auto simp: first_keyword_def jump_keywords_def S_def split: if_splits)

subsection \<open>\<^verbatim>\<open>find_line_targets\<close>\<close>

text \<open>The scan of one line, with the set \<^verbatim>\<open>targets\<close> collected so far.\<close>

function scan_targets :: "pystr \<Rightarrow> bool \<Rightarrow> nat set \<Rightarrow> py_error + nat set" where
  "scan_targets [] in_string targets = Inr targets"
| "scan_targets (c # rest) in_string targets =
     (if c = DQUOTE then scan_targets rest (\<not> in_string) targets
      else if in_string then scan_targets rest in_string targets
      else (case first_keyword (py_upper (c # rest)) of
              Some keyword \<Rightarrow>
                (case number_run (drop (length keyword) (c # rest)) targets of
                   Inl e \<Rightarrow> Inl e
                 | Inr (targets', rest') \<Rightarrow> scan_targets rest' in_string targets')
            | None \<Rightarrow> scan_targets rest in_string targets))"
  by pat_completeness auto
termination
proof (relation "measure (\<lambda>(code, in_string, targets). length code)", goal_cases)
  case (5 c rest in_string targets keyword x targets' rest')
  have "length rest' \<le> length (drop (length keyword) (c # rest))"
    using number_run_length[of "drop (length keyword) (c # rest)" targets targets' rest']
      5(4) 5(5)
    by simp
  moreover have "4 \<le> length keyword"
    using 5(3) by (rule first_keyword_length)
  ultimately show ?case by simp
qed auto

declare scan_targets.simps [simp del]

fun find_line_targets_loop :: "(nat \<times> pystr) list \<Rightarrow> nat set \<Rightarrow> py_error + nat set" where
  "find_line_targets_loop [] targets = Inr targets"
| "find_line_targets_loop ((line_num, code) # lines) targets =
     (case scan_targets (remove_comment code) False targets of
        Inl e \<Rightarrow> Inl e
      | Inr targets' \<Rightarrow> find_line_targets_loop lines targets')"

definition find_line_targets :: "(nat \<times> pystr) list \<Rightarrow> py_error + nat set" where
  "find_line_targets lines = find_line_targets_loop lines {}"
subsection \<open>\<^verbatim>\<open>ends_with_control_flow\<close>\<close>

text \<open>
  The first loop: the index of the last colon outside strings, \<open>-1\<close> when there is none.
\<close>

fun find_last_colon :: "pystr \<Rightarrow> nat \<Rightarrow> bool \<Rightarrow> int \<Rightarrow> int" where
  "find_last_colon [] i in_string last_colon = last_colon"
| "find_last_colon (c # rest) i in_string last_colon =
     (if c = DQUOTE then find_last_colon rest (i + 1) (\<not> in_string) last_colon
      else if c = COLON \<and> \<not> in_string then find_last_colon rest (i + 1) in_string (int i)
      else find_last_colon rest (i + 1) in_string last_colon)"

text \<open>
  The inner loop of the search for \<^verbatim>\<open>IF\<close> ... \<^verbatim>\<open>THEN\<close>, from \<open>j = i + 2\<close>: whether a
  \<^verbatim>\<open>THEN\<close> was found, and the value of \<^verbatim>\<open>in_string\<close> when the loop ends. The outer loop
  goes on with that value: the two loops share the one variable.
\<close>

fun then_scan :: "pystr \<Rightarrow> bool \<Rightarrow> bool \<times> bool" where
  "then_scan [] in_string = (False, in_string)"
| "then_scan (c # rest) in_string =
     (if c = DQUOTE then then_scan rest (\<not> in_string)
      else if \<not> in_string \<and> startswith (py_upper (c # rest)) (S ''THEN'') then (True, in_string)
      else then_scan rest in_string)"

fun if_scan :: "pystr \<Rightarrow> bool \<Rightarrow> bool" where
  "if_scan [] in_string = False"
| "if_scan (c # rest) in_string =
     (if c = DQUOTE then if_scan rest (\<not> in_string)
      else if \<not> in_string \<and> startswith (py_upper (c # rest)) (S ''IF'')
      then (let (found, in_string') = then_scan (drop 2 (c # rest)) in_string
            in if found then True else if_scan rest in_string')
      else if_scan rest in_string)"

definition ends_with_control_flow :: "pystr \<Rightarrow> bool" where
  "ends_with_control_flow code0 =
     (let code = py_rstrip code0
      in if code = [] then False
         else (let last_colon = find_last_colon code 0 False (-1);
                   last_stmt = (if last_colon \<ge> 0 then py_strip (drop (nat (last_colon + 1)) code)
                                else py_strip code);
                   last_stmt_upper = py_upper last_stmt
               in if last_stmt_upper \<in> {S ''RETURN'', S ''END'', S ''STOP''} then True
                  else if startswith last_stmt_upper (S ''GOTO'')
                          \<and> (let rest = py_strip (drop 4 last_stmt)
                               in rest \<noteq> [] \<and> py_isdigit (hd rest))
                  then True
                  else if_scan code False))"

subsection \<open>\<^verbatim>\<open>merge_lines\<close>\<close>

text \<open>
  An entry of the merged program: the anchor line number, or \<open>None\<close> for a continuation
  line that gets a fresh number later, and the text of the physical line.
\<close>

type_synonym merged_line = "nat option \<times> pystr"

text \<open>The segments of \<^verbatim>\<open>current_code\<close> joined: \<open>' :'\<close> after a \<^verbatim>\<open>DATA\<close> segment, else \<open>':'\<close>.\<close>

fun join_segments :: "pystr list \<Rightarrow> pystr" where
  "join_segments [] = []"
| "join_segments [seg] = seg"
| "join_segments (prev_seg # seg # segs) =
     prev_seg @ (if startswith (py_upper prev_seg) (S ''DATA'') then S '' :'' else S '':'')
       @ join_segments (seg # segs)"

text \<open>\<^verbatim>\<open>flush_current\<close>: the entries it appends to \<^verbatim>\<open>merged\<close>.\<close>

definition flush_current :: "int \<Rightarrow> nat \<Rightarrow> pystr list \<Rightarrow> merged_line list" where
  "flush_current max_line_length start_line current_code =
     (if current_code = [] then []
      else (let combined = join_segments current_code;
                max_code_length = max_line_length - int (length (py_str start_line)) - 1
            in if int (length combined) \<le> max_code_length
               then [(Some start_line, combined)]
               else (Some start_line, hd current_code)
                      # map (\<lambda>seg. (None, seg)) (tl current_code)))"

record merge_state =
  merged :: "merged_line list"
  current_start_line :: "nat option"
  current_code :: "pystr list"
  prevent_merge :: bool

definition merge_step :: "nat set \<Rightarrow> int \<Rightarrow> merge_state \<Rightarrow> nat \<times> pystr \<Rightarrow> merge_state" where
  "merge_step targets max_line_length st line =
     (let line_num = fst line; code = snd line;
          st' =
            (if line_num \<in> targets \<or> prevent_merge st
             then st\<lparr>merged := (case current_start_line st of
                                  Some start_line \<Rightarrow>
                                    merged st @ flush_current max_line_length start_line (current_code st)
                                | None \<Rightarrow> merged st),
                     current_start_line := Some line_num,
                     current_code := [code]\<rparr>
             else (let start_line = (case current_start_line st of
                                       None \<Rightarrow> line_num | Some n \<Rightarrow> n);
                       separator = (if current_code st \<noteq> []
                                       \<and> startswith (py_upper (last (current_code st))) (S ''DATA'')
                                    then S '' :'' else S '':'');
                       test_combined_len = int (sum_list (map length (current_code st)))
                                           + int (length separator * length (current_code st))
                                           + int (length code);
                       max_code_length = max_line_length - int (length (py_str start_line)) - 1
                   in if test_combined_len \<le> max_code_length
                      then st\<lparr>current_start_line := Some start_line,
                              current_code := current_code st @ [code]\<rparr>
                      else st\<lparr>merged := merged st @ flush_current max_line_length start_line (current_code st),
                              current_start_line := Some line_num,
                              current_code := [code]\<rparr>))
      in st'\<lparr>prevent_merge := ends_with_control_flow code\<rparr>)"

definition initial_merge_state :: merge_state where
  "initial_merge_state =
     \<lparr>merged = [], current_start_line = None, current_code = [], prevent_merge = False\<rparr>"

definition final_flush :: "int \<Rightarrow> merge_state \<Rightarrow> merged_line list" where
  "final_flush max_line_length st =
     (case current_start_line st of
        Some start_line \<Rightarrow> merged st @ flush_current max_line_length start_line (current_code st)
      | None \<Rightarrow> merged st)"

definition merge_lines :: "(nat \<times> pystr) list \<Rightarrow> nat set \<Rightarrow> int \<Rightarrow> merged_line list" where
  "merge_lines lines targets max_line_length =
     final_flush max_line_length (foldl (merge_step targets max_line_length) initial_merge_state lines)"

subsection \<open>\<^verbatim>\<open>update_line_references\<close>\<close>

text \<open>
  The loop after a keyword: every run of digits is read with \<^verbatim>\<open>int\<close>, looked up in
  \<^verbatim>\<open>line_map\<close> (\<^verbatim>\<open>line_map.get(old_line, old_line)\<close>) and appended to \<^verbatim>\<open>result\<close> with
  \<^verbatim>\<open>str\<close>; commas, spaces and tabs are copied. The result is the text written so far and
  the rest of the line, or the \<^verbatim>\<open>ValueError\<close> that \<^verbatim>\<open>int\<close> or \<^verbatim>\<open>str\<close> raised.
\<close>

definition dict_get :: "(nat \<rightharpoonup> nat) \<Rightarrow> nat \<Rightarrow> nat \<Rightarrow> nat" where
  "dict_get line_map key dflt = (case line_map key of Some v \<Rightarrow> v | None \<Rightarrow> dflt)"

function rewrite_numbers :: "(nat \<rightharpoonup> nat) \<Rightarrow> pystr \<Rightarrow> pystr \<Rightarrow> py_error + (pystr \<times> pystr)" where
  "rewrite_numbers line_map [] result = Inr (result, [])"
| "rewrite_numbers line_map (c # rest) result =
     (if py_isdigit c
      then (case py_int_digits (c # takeWhile py_isdigit rest) of
              Inl e \<Rightarrow> Inl e
            | Inr old_line \<Rightarrow>
                (case py_str_checked (dict_get line_map old_line old_line) of
                   Inl e \<Rightarrow> Inl e
                 | Inr new_line \<Rightarrow>
                     rewrite_numbers line_map (dropWhile py_isdigit rest) (result @ new_line)))
      else if c = COMMA \<or> c = SPACE \<or> c = TAB
      then rewrite_numbers line_map rest (result @ [c])
      else Inr (result, c # rest))"
  by pat_completeness auto
termination
  by (relation "measure (\<lambda>(line_map, code, result). length code)")
     (auto simp: less_Suc_eq_le length_dropWhile_le)

declare rewrite_numbers.simps [simp del]

lemma rewrite_numbers_length:
  "rewrite_numbers m s result = Inr (result', r) \<Longrightarrow> length r \<le> length s"
proof (induction m s result rule: rewrite_numbers.induct)
  case (1 m result)
  then show ?case by (simp add: rewrite_numbers.simps)
next
  case (2 m c rest result)
  have "length (dropWhile py_isdigit rest) \<le> length rest"
    by (rule length_dropWhile_le)
  with 2 show ?case
    by (fastforce simp: rewrite_numbers.simps(2)[of m c rest result]
          split: if_splits sum.splits)
qed

text \<open>The main loop, with the characters written so far in \<^verbatim>\<open>result\<close>.\<close>

function update_loop :: "(nat \<rightharpoonup> nat) \<Rightarrow> pystr \<Rightarrow> bool \<Rightarrow> pystr \<Rightarrow> py_error + pystr" where
  "update_loop line_map [] in_string result = Inr result"
| "update_loop line_map (c # rest) in_string result =
     (if c = DQUOTE then update_loop line_map rest (\<not> in_string) (result @ [c])
      else if in_string then update_loop line_map rest in_string (result @ [c])
      else (case first_keyword (py_upper (c # rest)) of
              Some keyword \<Rightarrow>
                (case rewrite_numbers line_map (drop (length keyword) (c # rest))
                        (result @ take (length keyword) (c # rest)) of
                   Inl e \<Rightarrow> Inl e
                 | Inr (result', rest') \<Rightarrow> update_loop line_map rest' in_string result')
            | None \<Rightarrow> update_loop line_map rest in_string (result @ [c])))"
  by pat_completeness auto
termination
proof (relation "measure (\<lambda>(line_map, code, in_string, result). length code)", goal_cases)
  case (5 line_map c rest in_string result keyword x result' rest')
  have "length rest' \<le> length (drop (length keyword) (c # rest))"
    using rewrite_numbers_length[of line_map "drop (length keyword) (c # rest)"
        "result @ take (length keyword) (c # rest)" result' rest'] 5(4) 5(5)
    by simp
  moreover have "4 \<le> length keyword"
    using 5(3) by (rule first_keyword_length)
  ultimately show ?case by simp
qed auto

declare update_loop.simps [simp del]

definition update_line_references :: "pystr \<Rightarrow> (nat \<rightharpoonup> nat) \<Rightarrow> py_error + pystr" where
  "update_line_references code line_map = update_loop line_map code False []"

subsection \<open>\<^verbatim>\<open>pack_basic_file\<close>, from the parsed lines to the lines written\<close>

definition pack_line :: "pystr \<Rightarrow> pystr" where
  "pack_line code = remove_print_semicolons (pack_spaces (remove_comment code))"

text \<open>
  The loop that builds \<^verbatim>\<open>line_map\<close>: every entry of \<^verbatim>\<open>merged\<close> takes the next number,
  from 1, and an anchor is recorded unless it is in the map already.
\<close>

fun build_line_map :: "merged_line list \<Rightarrow> nat \<Rightarrow> (nat \<rightharpoonup> nat) \<Rightarrow> (nat \<rightharpoonup> nat)" where
  "build_line_map [] new_line_num line_map = line_map"
| "build_line_map ((old_line_num, code) # rest) new_line_num line_map =
     build_line_map rest (new_line_num + 1)
       (case old_line_num of
          Some old \<Rightarrow> (if old \<in> dom line_map then line_map else line_map(old \<mapsto> new_line_num))
        | None \<Rightarrow> line_map)"

text \<open>
  The loop that builds \<^verbatim>\<open>final_lines\<close>; a \<^verbatim>\<open>ValueError\<close> of \<^verbatim>\<open>update_line_references\<close>
  ends it. An anchor is in \<^verbatim>\<open>line_map\<close> by construction (\<^verbatim>\<open>line_map[old_line_num]\<close>
  cannot raise); \<open>the\<close> stands for that lookup.
\<close>

fun final_lines_loop ::
  "(nat \<rightharpoonup> nat) \<Rightarrow> merged_line list \<Rightarrow> nat \<Rightarrow> (nat \<times> pystr) list
    \<Rightarrow> py_error + (nat \<times> pystr) list" where
  "final_lines_loop line_map [] current_new_num final_lines = Inr final_lines"
| "final_lines_loop line_map ((old_line_num, code) # rest) current_new_num final_lines =
     (case update_line_references code line_map of
        Inl e \<Rightarrow> Inl e
      | Inr updated_code \<Rightarrow>
          (let new_line_num = (case old_line_num of
                                 Some old \<Rightarrow> the (line_map old)
                               | None \<Rightarrow> current_new_num)
           in final_lines_loop line_map rest (new_line_num + 1)
                (final_lines @ [(new_line_num, updated_code)])))"

text \<open>
  The result is the list of numbered lines written to the output file, or the
  \<^verbatim>\<open>ValueError\<close> that ended the run before the file was opened.
\<close>

definition pack_basic_file :: "(nat \<times> pystr) list \<Rightarrow> py_error + (nat \<times> pystr) list" where
  "pack_basic_file lines =
     (let packed = map (\<lambda>(num, code). (num, pack_line code)) lines
      in case find_line_targets packed of
           Inl e \<Rightarrow> Inl e
         | Inr targets \<Rightarrow>
             (let merged = merge_lines packed targets 255;
                  line_map = build_line_map merged 1 Map.empty
              in case final_lines_loop line_map merged 1 [] of
                   Inl e \<Rightarrow> Inl e
                 | Inr final_lines \<Rightarrow>
                     Inr (map (\<lambda>(line_num, code). (line_num, remove_trailing_quote code))
                            final_lines)))"
section \<open>Properties of the binary encoder\<close>

lemma low_byte_mod: "low_byte v = nat (v mod 256)"
  using take_bit_eq_mask[of 8 v] by (simp add: low_byte_def take_bit_eq_mod mask_eq_exp_minus_1)

lemma high_byte_mod: "high_byte v = nat ((v div 256) mod 256)"
  using take_bit_eq_mask[of 8 "drop_bit 8 v"]
  by (simp add: high_byte_def take_bit_eq_mod mask_eq_exp_minus_1 drop_bit_eq_div)

lemma header_u16: "[low_byte v, high_byte v] = u16_le (v mod 65536)"
proof -
  have "(v mod 65536) mod 256 = v mod 256"
    by (rule mod_mod_cancel) simp
  moreover have "(v mod 65536) div 256 = (v div 256) mod 256"
    using div_exp_mod_exp_eq[of v 8 8] by simp
  ultimately show ?thesis by (simp add: u16_le_def low_byte_mod high_byte_mod)
qed

lemma calc_addresses_Cons:
  "calc_addresses a (l # ls)
   = (a # fst (calc_addresses (a + record_size l) ls), snd (calc_addresses (a + record_size l) ls))"
  by (cases l) (simp add: record_size_def split: prod.splits)

lemma calc_addresses_length: "length (fst (calc_addresses a ls)) = length ls"
  by (induction ls arbitrary: a) (simp_all add: calc_addresses_Cons)

lemma calc_addresses_final:
  "snd (calc_addresses a ls) = a + (\<Sum>j<length ls. record_size (ls ! j))"
proof (induction ls arbitrary: a)
  case Nil
  then show ?case by simp
next
  case (Cons l ls)
  obtain n c where l: "l = (n, c)" by (cases l)
  have "(\<Sum>j<Suc (length ls). record_size ((l # ls) ! j))
        = record_size l + (\<Sum>j<length ls. record_size (ls ! j))"
    by (simp add: sum.lessThan_Suc_shift del: sum.lessThan_Suc)
  with Cons[of "a + record_size l"] show ?case
    by (simp add: calc_addresses_Cons del: sum.lessThan_Suc)
qed

lemma calc_addresses_nth:
  "k < length ls \<Longrightarrow> fst (calc_addresses a ls) ! k = a + (\<Sum>j<k. record_size (ls ! j))"
proof (induction ls arbitrary: a k)
  case Nil
  then show ?case by simp
next
  case (Cons l ls)
  obtain n c where l: "l = (n, c)" by (cases l)
  show ?case
  proof (cases k)
    case 0
    then show ?thesis by (simp add: calc_addresses_Cons)
  next
    case (Suc k')
    with Cons.prems have k': "k' < length ls" by simp
    have "(\<Sum>j<Suc k'. record_size ((l # ls) ! j))
          = record_size l + (\<Sum>j<k'. record_size (ls ! j))"
      by (simp add: sum.lessThan_Suc_shift del: sum.lessThan_Suc)
    with Cons.IH[OF k', of "a + record_size l"] show ?thesis
      by (simp add: Suc calc_addresses_Cons del: sum.lessThan_Suc)
  qed
qed

lemma write_line_expected:
  assumes "k < length ls"
  shows "write_line (fst (calc_addresses B ls)) (snd (calc_addresses B ls)) ls k
         = expected_record B ls k"
proof -
  obtain n c where l: "ls ! k = (n, c)" by (cases "ls ! k")
  have next_addr: "(if k + 1 < length ls then fst (calc_addresses B ls) ! (k + 1)
                    else snd (calc_addresses B ls)) = successor_address B ls k"
  proof (cases "k + 1 < length ls")
    case True
    then show ?thesis
      by (simp add: calc_addresses_nth successor_address_def)
  next
    case False
    with assms have "length ls = Suc k" by simp
    then show ?thesis
      using False by (simp add: calc_addresses_final successor_address_def)
  qed
  have "write_line (fst (calc_addresses B ls)) (snd (calc_addresses B ls)) ls k
        = [low_byte (successor_address B ls k), high_byte (successor_address B ls k)]
          @ [low_byte n, high_byte n] @ c @ [0]"
    unfolding write_line_def using next_addr by (simp add: l Let_def)
  then show ?thesis
    by (simp only: header_u16 expected_record_def l fst_conv snd_conv)
qed

lemma encode_lines_records:
  "encode_lines B ls = concat (map (expected_record B ls) [0..<length ls])"
proof -
  obtain a b where ab: "calc_addresses B ls = (a, b)" by (cases "calc_addresses B ls")
  have "\<And>k. k < length ls \<Longrightarrow> write_line a b ls k = expected_record B ls k"
    using write_line_expected[of _ ls B] by (simp add: ab)
  then have "map (write_line a b ls) [0..<length ls] = map (expected_record B ls) [0..<length ls]"
    by simp
  moreover have "encode_lines B ls = concat (map (write_line a b ls) [0..<length ls])"
    by (simp add: encode_lines_def ab)
  ultimately show ?thesis by (simp only:)
qed

lemma expected_record_Cons_0:
  "expected_record B (l # ls) 0
   = u16_le ((B + record_size l) mod 65536) @ u16_le (fst l mod 65536) @ snd l @ [0]"
  by (simp add: expected_record_def successor_address_def)

lemma expected_record_Cons_Suc:
  "expected_record B (l # ls) (Suc k) = expected_record (B + record_size l) ls k"
  by (simp add: expected_record_def successor_address_def sum.lessThan_Suc_shift add.assoc
      del: sum.lessThan_Suc)

lemma encode_lines_Cons:
  "encode_lines B (l # ls)
   = (u16_le ((B + record_size l) mod 65536) @ u16_le (fst l mod 65536) @ snd l @ [0])
     @ encode_lines (B + record_size l) ls"
proof -
  have "[0..<length (l # ls)] = 0 # map Suc [0..<length ls]"
    by (simp add: upt_conv_Cons map_Suc_upt del: upt_Suc)
  then show ?thesis
    by (simp add: encode_lines_records expected_record_Cons_0 expected_record_Cons_Suc
        comp_def del: upt_Suc)
qed

lemma encode_lines_Nil: "encode_lines B [] = []"
  by (simp add: encode_lines_records)

lemma encode_lines_length:
  "int (length (encode_lines B ls)) = (\<Sum>j<length ls. record_size (ls ! j))"
proof (induction ls arbitrary: B)
  case Nil
  then show ?case by (simp add: encode_lines_Nil)
next
  case (Cons l ls)
  show ?case
    by (simp add: encode_lines_Cons Cons.IH u16_le_def record_size_def sum.lessThan_Suc_shift
        del: sum.lessThan_Suc)
qed

lemma u16_value: "0 \<le> x \<Longrightarrow> int (nat (x mod 256)) + 256 * int (nat (x div 256)) = x"
  by (simp add: pos_imp_zdiv_nonneg_iff)

lemma decode_records_step:
  assumes "int a0 + 256 * int a1 - addr = 5 + int (length c)"
  shows "decode_records addr (a0 # a1 # n0 # n1 # (c @ [z] @ others))
         = (int n0 + 256 * int n1, c) # decode_records (int a0 + 256 * int a1) others"
proof -
  have sz: "nat (5 + int (length c)) = Suc (Suc (Suc (Suc (Suc (length c)))))" by simp
  show ?thesis
    by (subst decode_records.simps) (simp add: assms Let_def sz del: decode_records.simps)
qed

lemma decode_encode:
  assumes "0 \<le> B" "B + (\<Sum>j<length ls. record_size (ls ! j)) \<le> 65535"
    and "\<forall>l\<in>set ls. 0 \<le> fst l \<and> fst l \<le> 65535"
  shows "decode_records B (encode_lines B ls) = ls"
  using assms
proof (induction ls arbitrary: B)
  case Nil
  then show ?case by (simp add: encode_lines_Nil decode_records.simps)
next
  case (Cons l ls)
  obtain n c where l: "l = (n, c)" by (cases l)
  let ?B' = "B + record_size l"
  have tot: "(\<Sum>j<length (l # ls). record_size ((l # ls) ! j))
             = record_size l + (\<Sum>j<length ls. record_size (ls ! j))"
    by (simp add: sum.lessThan_Suc_shift del: sum.lessThan_Suc)
  have nonneg: "0 \<le> (\<Sum>j<length ls. record_size (ls ! j))"
    by (rule sum_nonneg) (simp add: record_size_def)
  have size_pos: "5 \<le> record_size l" by (simp add: record_size_def)
  from Cons.prems tot nonneg size_pos
  have B': "0 \<le> ?B'" "?B' \<le> 65535" "?B' + (\<Sum>j<length ls. record_size (ls ! j)) \<le> 65535"
    by simp_all
  have n: "0 \<le> n" "n \<le> 65535" using Cons.prems(3) by (simp_all add: l)
  have IH: "decode_records ?B' (encode_lines ?B' ls) = ls"
    using Cons.IH[OF B'(1) B'(3)] Cons.prems(3) by simp
  have succ: "int (nat (?B' mod 256)) + 256 * int (nat (?B' div 256)) = ?B'"
    using B'(1) by (rule u16_value)
  have num: "int (nat (n mod 256)) + 256 * int (nat (n div 256)) = n"
    using n(1) by (rule u16_value)
  have enc: "encode_lines B (l # ls)
     = nat (?B' mod 256) # nat (?B' div 256) # nat (n mod 256) # nat (n div 256)
       # (c @ [0] @ encode_lines ?B' ls)"
    using B' n by (simp add: encode_lines_Cons u16_le_def l del: encode_lines_Nil)
  have len: "int (length (encode_lines B (l # ls))) = record_size l + int (length (encode_lines ?B' ls))"
    by (simp add: encode_lines_Cons u16_le_def record_size_def)
  have diff: "int (nat (?B' mod 256)) + 256 * int (nat (?B' div 256)) - B = 5 + int (length c)"
    unfolding succ by (simp add: record_size_def l)
  have "decode_records B (encode_lines B (l # ls))
        = (n, c) # decode_records ?B' (encode_lines ?B' ls)"
    unfolding enc using decode_records_step[OF diff, of "nat (n mod 256)" "nat (n div 256)" 0
        "encode_lines ?B' ls"]
    by (simp only: succ num)
  then show ?case using IH by (simp add: l)
qed

subsection \<open>Record layout and address arithmetic (claim C1)\<close>

lemma successor_address_range:
  assumes "0 \<le> B" "B + (\<Sum>j<length ls. record_size (ls ! j)) \<le> 65535" "k < length ls"
  shows "0 \<le> successor_address B ls k \<and> successor_address B ls k \<le> 65535"
proof -
  have "(\<Sum>j<Suc k. record_size (ls ! j)) \<le> (\<Sum>j<length ls. record_size (ls ! j))"
    using assms(3) by (intro sum_mono2) (auto simp: record_size_def)
  moreover have "0 \<le> (\<Sum>j<Suc k. record_size (ls ! j))"
    by (rule sum_nonneg) (simp add: record_size_def)
  ultimately show ?thesis using assms(1,2) by (simp add: successor_address_def)
qed

lemma expected_record_in_range:
  assumes "0 \<le> B" "B + (\<Sum>j<length ls. record_size (ls ! j)) \<le> 65535"
    and "\<forall>l\<in>set ls. 0 \<le> fst l \<and> fst l \<le> 65535" and "k < length ls"
  shows "expected_record B ls k
         = u16_le (successor_address B ls k) @ u16_le (fst (ls ! k)) @ snd (ls ! k) @ [0]"
proof -
  have "0 \<le> fst (ls ! k) \<and> fst (ls ! k) \<le> 65535"
    using assms(3,4) by simp
  then have "fst (ls ! k) mod 65536 = fst (ls ! k)" by simp
  moreover have "successor_address B ls k mod 65536 = successor_address B ls k"
    using successor_address_range[OF assms(1,2,4)] by simp
  ultimately show ?thesis by (simp add: expected_record_def)
qed

lemma last_successor_address:
  "ls \<noteq> [] \<Longrightarrow> successor_address B ls (length ls - 1) = B + int (length (encode_lines B ls))"
  by (simp add: successor_address_def encode_lines_length)

text \<open>
  Claim C1 (amended). For every sequence of tokenized lines and every base address \<open>B\<close>,
  the output of the encoder is exactly the concatenation, in order, of one record per
  line and nothing else (no sentinel record): the successor address \<open>B\<close> plus the sum
  over \<open>j \<le> k\<close> of \<open>5 + p\<^sub>j\<close>, reduced modulo \<open>65536\<close>, as two little-endian bytes;
  the line number modulo \<open>65536\<close> as two little-endian bytes; the payload; the byte
  \<open>0\<close>. The successor address of the last line is \<open>B\<close> plus the length of the whole
  output, one byte past the end of the last record. When \<open>B\<close> is not negative, \<open>B\<close> plus
  the total size is at most \<open>65535\<close> and every line number lies in \<open>0..65535\<close>, the two
  header words hold the successor address and the line number themselves, and decoding
  the output with the formula gives back every line's number and payload.
\<close>

theorem encode_lines_record_layout:
  "encode_lines B ls = concat (map (expected_record B ls) [0..<length ls])
   \<and> (ls \<noteq> [] \<longrightarrow> successor_address B ls (length ls - 1) = B + int (length (encode_lines B ls)))
   \<and> (0 \<le> B \<and> B + (\<Sum>j<length ls. record_size (ls ! j)) \<le> 65535
        \<and> (\<forall>l\<in>set ls. 0 \<le> fst l \<and> fst l \<le> 65535)
      \<longrightarrow> (\<forall>k<length ls. expected_record B ls k
              = u16_le (successor_address B ls k) @ u16_le (fst (ls ! k)) @ snd (ls ! k) @ [0])
          \<and> decode_records B (encode_lines B ls) = ls)"
proof (intro conjI impI allI)
  show "encode_lines B ls = concat (map (expected_record B ls) [0..<length ls])"
    by (rule encode_lines_records)
next
  assume "ls \<noteq> []"
  then show "successor_address B ls (length ls - 1) = B + int (length (encode_lines B ls))"
    by (rule last_successor_address)
next
  fix k
  assume "0 \<le> B \<and> B + (\<Sum>j<length ls. record_size (ls ! j)) \<le> 65535
        \<and> (\<forall>l\<in>set ls. 0 \<le> fst l \<and> fst l \<le> 65535)" and "k < length ls"
  then show "expected_record B ls k
              = u16_le (successor_address B ls k) @ u16_le (fst (ls ! k)) @ snd (ls ! k) @ [0]"
    using expected_record_in_range[of B ls k] by blast
next
  assume "0 \<le> B \<and> B + (\<Sum>j<length ls. record_size (ls ! j)) \<le> 65535
        \<and> (\<forall>l\<in>set ls. 0 \<le> fst l \<and> fst l \<le> 65535)"
  then show "decode_records B (encode_lines B ls) = ls"
    using decode_encode[of B ls] by blast
qed

text \<open>The theorem at base address \<open>0x8001\<close> and a program of two lines.\<close>

theorem encode_lines_record_layout_witness:
  "encode_lines 0x8001 [(10, [0xA3, 0x22]), (20, [0x80])]
     = [0x08, 0x80, 10, 0, 0xA3, 0x22, 0, 0x0E, 0x80, 20, 0, 0x80, 0]
   \<and> successor_address 0x8001 [(10, [0xA3, 0x22]), (20, [0x80])] 1 = 0x8001 + 13
   \<and> decode_records 0x8001 (encode_lines 0x8001 [(10, [0xA3, 0x22]), (20, [0x80])])
     = [(10, [0xA3, 0x22]), (20, [0x80])]"
proof -
  let ?ls = "[(10, [0xA3, 0x22]), (20, [0x80])] :: (int \<times> byte list) list"
  have sum: "(\<Sum>j<length ?ls. record_size (?ls ! j)) = 13"
    by (simp add: record_size_def lessThan_Suc numeral_2_eq_2)
  have hyp: "(0::int) \<le> 0x8001 \<and> 0x8001 + (\<Sum>j<length ?ls. record_size (?ls ! j)) \<le> 65535
        \<and> (\<forall>l\<in>set ?ls. 0 \<le> fst l \<and> fst l \<le> 65535)"
    unfolding sum by simp
  have upt2: "[0..<length ?ls] = [0, 1]" by (simp add: upt_conv_Cons)
  have recs: "concat (map (expected_record 0x8001 ?ls) [0..<length ?ls])
      = [0x08, 0x80, 10, 0, 0xA3, 0x22, 0, 0x0E, 0x80, 20, 0, 0x80, 0]"
    unfolding upt2
    by (simp add: expected_record_def successor_address_def record_size_def u16_le_def
        lessThan_Suc numeral_2_eq_2)
  note layout = encode_lines_record_layout[of "0x8001" ?ls]
  from layout have enc: "encode_lines 0x8001 ?ls = concat (map (expected_record 0x8001 ?ls) [0..<length ?ls])"
    by (rule conjunct1)
  from layout hyp have dec: "decode_records 0x8001 (encode_lines 0x8001 ?ls) = ?ls"
    by blast
  have last: "successor_address 0x8001 ?ls 1 = 0x8001 + 13"
    by (simp add: successor_address_def record_size_def lessThan_Suc numeral_2_eq_2)
  from enc recs have "encode_lines 0x8001 ?ls = [0x08, 0x80, 10, 0, 0xA3, 0x22, 0, 0x0E, 0x80, 20, 0, 0x80, 0]"
    by (rule trans)
  with dec last show ?thesis by blast
qed

text \<open>
  The claim as stated fails where the sixteen bits overflow: at base address \<open>65535\<close> the
  successor address of a line with an empty payload is \<open>65540\<close>, and the header holds
  \<open>4\<close>.
\<close>

theorem encode_lines_wrap_counterexample:
  "int (encode_lines 65535 [(10, [])] ! 0) + 256 * int (encode_lines 65535 [(10, [])] ! 1)
   \<noteq> 65535 + (5 + int (length ([] :: byte list)))"
  by (simp add: encode_lines_def write_line_def low_byte_mod high_byte_mod)

section \<open>Properties of the tokenizer\<close>

subsection \<open>The token table as code points, and evaluation\<close>

lemma TOKENS_code:
  "TOKENS =
    [([69, 78, 68], 128), ([70, 79, 82], 129), ([78, 69, 88, 84], 130),
     ([68, 65, 84, 65], 131), ([73, 78, 80, 85, 84], 132), ([68, 73, 77], 133),
     ([82, 69, 65, 68], 134), ([76, 69, 84], 135), ([71, 79, 84, 79], 136),
     ([82, 85, 78], 137), ([73, 70], 138), ([82, 69, 83, 84, 79, 82, 69], 139),
     ([71, 79, 83, 85, 66], 140), ([82, 69, 84, 85, 82, 78], 141), ([82, 69, 77], 142),
     ([83, 84, 79, 80], 143), ([87, 73, 68, 84, 72], 144), ([69, 76, 83, 69], 145),
     ([76, 73, 78, 69], 146), ([69, 68, 73, 84], 147), ([69, 82, 82, 79, 82], 148),
     ([82, 69, 83, 85, 77, 69], 149), ([79, 85, 84], 150), ([79, 78], 151),
     ([68, 83, 75, 79, 36], 152), ([79, 80, 69, 78], 153), ([67, 76, 79, 83, 69], 154),
     ([76, 79, 65, 68], 155), ([77, 69, 82, 71, 69], 156), ([70, 73, 76, 69, 83], 157),
     ([83, 65, 86, 69], 158), ([76, 70, 73, 76, 69, 83], 159),
     ([76, 80, 82, 73, 78, 84], 160), ([68, 69, 70], 161), ([80, 79, 75, 69], 162),
     ([80, 82, 73, 78, 84], 163), ([67, 79, 78, 84], 164), ([76, 73, 83, 84], 165),
     ([76, 76, 73, 83, 84], 166), ([67, 76, 69, 65, 82], 167), ([67, 76, 79, 65, 68], 168),
     ([67, 83, 65, 86, 69], 169), ([84, 73, 77, 69, 36], 170), ([68, 65, 84, 69, 36], 171),
     ([68, 65, 89, 36], 172), ([67, 79, 77], 173), ([77, 68, 77], 174),
     ([75, 69, 89], 175), ([67, 76, 83], 176), ([66, 69, 69, 80], 177),
     ([83, 79, 85, 78, 68], 178), ([76, 67, 79, 80, 89], 179), ([80, 83, 69, 84], 180),
     ([80, 82, 69, 83, 69, 84], 181), ([77, 79, 84, 79, 82], 182), ([77, 65, 88], 183),
     ([80, 79, 87, 69, 82], 184), ([67, 65, 76, 76], 185), ([77, 69, 78, 85], 186),
     ([73, 80, 76], 187), ([78, 65, 77, 69], 188), ([75, 73, 76, 76], 189),
     ([83, 67, 82, 69, 69, 78], 190), ([78, 69, 87], 191), ([84, 65, 66, 40], 192),
     ([84, 79], 193), ([85, 83, 73, 78, 71], 194), ([86, 65, 82, 80, 84, 82], 195),
     ([69, 82, 76], 196), ([69, 82, 82], 197), ([83, 84, 82, 73, 78, 71, 36], 198),
     ([73, 78, 83, 84, 82], 199), ([68, 83, 75, 73, 36], 200),
     ([73, 78, 75, 69, 89, 36], 201), ([67, 83, 82, 76, 73, 78], 202), ([79, 70, 70], 203),
     ([72, 73, 77, 69, 77], 204), ([84, 72, 69, 78], 205), ([78, 79, 84], 206),
     ([83, 84, 69, 80], 207), ([43], 208), ([45], 209), ([42], 210), ([47], 211),
     ([94], 212), ([65, 78, 68], 213), ([79, 82], 214), ([88, 79, 82], 215),
     ([69, 81, 86], 216), ([73, 77, 80], 217), ([77, 79, 68], 218), ([92], 219),
     ([62], 220), ([61], 221), ([60], 222), ([83, 71, 78], 223), ([73, 78, 84], 224),
     ([65, 66, 83], 225), ([70, 82, 69], 226), ([73, 78, 80], 227),
     ([76, 80, 79, 83], 228), ([80, 79, 83], 229), ([83, 81, 82], 230),
     ([82, 78, 68], 231), ([76, 79, 71], 232), ([69, 88, 80], 233), ([67, 79, 83], 234),
     ([83, 73, 78], 235), ([84, 65, 78], 236), ([65, 84, 78], 237),
     ([80, 69, 69, 75], 238), ([69, 79, 70], 239), ([76, 79, 67], 240),
     ([76, 79, 70], 241), ([67, 73, 78, 84], 242), ([67, 83, 78, 71], 243),
     ([67, 68, 66, 76], 244), ([70, 73, 88], 245), ([76, 69, 78], 246),
     ([83, 84, 82, 36], 247), ([86, 65, 76], 248), ([65, 83, 67], 249),
     ([67, 72, 82, 36], 250), ([83, 80, 65, 67, 69, 36], 251), ([76, 69, 70, 84, 36], 252),
     ([82, 73, 71, 72, 84, 36], 253), ([77, 73, 68, 36], 254), ([39], 255)]"
  by (simp add: TOKENS_def S_def)

text \<open>The lookup as a chain of comparisons, in the order of the table.\<close>

lemma token_of_chain:
  "token_of k =
     (if k = [69, 78, 68] then Some 128 else if k = [70, 79, 82] then Some 129 else
      if k = [78, 69, 88, 84] then Some 130 else if k = [68, 65, 84, 65] then Some 131 else
      if k = [73, 78, 80, 85, 84] then Some 132 else if k = [68, 73, 77] then Some 133 else
      if k = [82, 69, 65, 68] then Some 134 else if k = [76, 69, 84] then Some 135 else
      if k = [71, 79, 84, 79] then Some 136 else if k = [82, 85, 78] then Some 137 else
      if k = [73, 70] then Some 138 else
      if k = [82, 69, 83, 84, 79, 82, 69] then Some 139 else
      if k = [71, 79, 83, 85, 66] then Some 140 else
      if k = [82, 69, 84, 85, 82, 78] then Some 141 else
      if k = [82, 69, 77] then Some 142 else if k = [83, 84, 79, 80] then Some 143 else
      if k = [87, 73, 68, 84, 72] then Some 144 else
      if k = [69, 76, 83, 69] then Some 145 else if k = [76, 73, 78, 69] then Some 146 else
      if k = [69, 68, 73, 84] then Some 147 else
      if k = [69, 82, 82, 79, 82] then Some 148 else
      if k = [82, 69, 83, 85, 77, 69] then Some 149 else
      if k = [79, 85, 84] then Some 150 else if k = [79, 78] then Some 151 else
      if k = [68, 83, 75, 79, 36] then Some 152 else
      if k = [79, 80, 69, 78] then Some 153 else
      if k = [67, 76, 79, 83, 69] then Some 154 else
      if k = [76, 79, 65, 68] then Some 155 else
      if k = [77, 69, 82, 71, 69] then Some 156 else
      if k = [70, 73, 76, 69, 83] then Some 157 else
      if k = [83, 65, 86, 69] then Some 158 else
      if k = [76, 70, 73, 76, 69, 83] then Some 159 else
      if k = [76, 80, 82, 73, 78, 84] then Some 160 else
      if k = [68, 69, 70] then Some 161 else if k = [80, 79, 75, 69] then Some 162 else
      if k = [80, 82, 73, 78, 84] then Some 163 else
      if k = [67, 79, 78, 84] then Some 164 else if k = [76, 73, 83, 84] then Some 165 else
      if k = [76, 76, 73, 83, 84] then Some 166 else
      if k = [67, 76, 69, 65, 82] then Some 167 else
      if k = [67, 76, 79, 65, 68] then Some 168 else
      if k = [67, 83, 65, 86, 69] then Some 169 else
      if k = [84, 73, 77, 69, 36] then Some 170 else
      if k = [68, 65, 84, 69, 36] then Some 171 else
      if k = [68, 65, 89, 36] then Some 172 else if k = [67, 79, 77] then Some 173 else
      if k = [77, 68, 77] then Some 174 else if k = [75, 69, 89] then Some 175 else
      if k = [67, 76, 83] then Some 176 else if k = [66, 69, 69, 80] then Some 177 else
      if k = [83, 79, 85, 78, 68] then Some 178 else
      if k = [76, 67, 79, 80, 89] then Some 179 else
      if k = [80, 83, 69, 84] then Some 180 else
      if k = [80, 82, 69, 83, 69, 84] then Some 181 else
      if k = [77, 79, 84, 79, 82] then Some 182 else if k = [77, 65, 88] then Some 183 else
      if k = [80, 79, 87, 69, 82] then Some 184 else
      if k = [67, 65, 76, 76] then Some 185 else if k = [77, 69, 78, 85] then Some 186 else
      if k = [73, 80, 76] then Some 187 else if k = [78, 65, 77, 69] then Some 188 else
      if k = [75, 73, 76, 76] then Some 189 else
      if k = [83, 67, 82, 69, 69, 78] then Some 190 else
      if k = [78, 69, 87] then Some 191 else if k = [84, 65, 66, 40] then Some 192 else
      if k = [84, 79] then Some 193 else if k = [85, 83, 73, 78, 71] then Some 194 else
      if k = [86, 65, 82, 80, 84, 82] then Some 195 else
      if k = [69, 82, 76] then Some 196 else if k = [69, 82, 82] then Some 197 else
      if k = [83, 84, 82, 73, 78, 71, 36] then Some 198 else
      if k = [73, 78, 83, 84, 82] then Some 199 else
      if k = [68, 83, 75, 73, 36] then Some 200 else
      if k = [73, 78, 75, 69, 89, 36] then Some 201 else
      if k = [67, 83, 82, 76, 73, 78] then Some 202 else
      if k = [79, 70, 70] then Some 203 else if k = [72, 73, 77, 69, 77] then Some 204 else
      if k = [84, 72, 69, 78] then Some 205 else if k = [78, 79, 84] then Some 206 else
      if k = [83, 84, 69, 80] then Some 207 else if k = [43] then Some 208 else
      if k = [45] then Some 209 else if k = [42] then Some 210 else
      if k = [47] then Some 211 else if k = [94] then Some 212 else
      if k = [65, 78, 68] then Some 213 else if k = [79, 82] then Some 214 else
      if k = [88, 79, 82] then Some 215 else if k = [69, 81, 86] then Some 216 else
      if k = [73, 77, 80] then Some 217 else if k = [77, 79, 68] then Some 218 else
      if k = [92] then Some 219 else if k = [62] then Some 220 else
      if k = [61] then Some 221 else if k = [60] then Some 222 else
      if k = [83, 71, 78] then Some 223 else if k = [73, 78, 84] then Some 224 else
      if k = [65, 66, 83] then Some 225 else if k = [70, 82, 69] then Some 226 else
      if k = [73, 78, 80] then Some 227 else if k = [76, 80, 79, 83] then Some 228 else
      if k = [80, 79, 83] then Some 229 else if k = [83, 81, 82] then Some 230 else
      if k = [82, 78, 68] then Some 231 else if k = [76, 79, 71] then Some 232 else
      if k = [69, 88, 80] then Some 233 else if k = [67, 79, 83] then Some 234 else
      if k = [83, 73, 78] then Some 235 else if k = [84, 65, 78] then Some 236 else
      if k = [65, 84, 78] then Some 237 else if k = [80, 69, 69, 75] then Some 238 else
      if k = [69, 79, 70] then Some 239 else if k = [76, 79, 67] then Some 240 else
      if k = [76, 79, 70] then Some 241 else if k = [67, 73, 78, 84] then Some 242 else
      if k = [67, 83, 78, 71] then Some 243 else if k = [67, 68, 66, 76] then Some 244 else
      if k = [70, 73, 88] then Some 245 else if k = [76, 69, 78] then Some 246 else
      if k = [83, 84, 82, 36] then Some 247 else if k = [86, 65, 76] then Some 248 else
      if k = [65, 83, 67] then Some 249 else if k = [67, 72, 82, 36] then Some 250 else
      if k = [83, 80, 65, 67, 69, 36] then Some 251 else
      if k = [76, 69, 70, 84, 36] then Some 252 else
      if k = [82, 73, 71, 72, 84, 36] then Some 253 else
      if k = [77, 73, 68, 36] then Some 254 else if k = [39] then Some 255 else None)"
  unfolding token_of_def TOKENS_code map_of.simps fun_upd_apply fst_conv snd_conv
  by (rule refl)

text \<open>
  Every spelling of the table starts with one of these code points, so a position whose
  upper-cased character is not among them matches no keyword. This keeps the evaluation
  of \<open>match_keyword\<close> on concrete lines short.
\<close>

definition first_chars :: "nat list" where
  "first_chars = [39, 42, 43, 45, 47, 60, 61, 62, 65, 66, 67, 68, 69, 70, 71, 72, 73, 75, 76, 77, 78, 79, 80, 82, 83, 84, 85, 86, 87, 88, 92, 94]"

lemma TOKENS_first_chars: "\<forall>(k, v) \<in> set TOKENS. k \<noteq> [] \<and> hd k \<in> set first_chars"
  by (simp add: TOKENS_code first_chars_def)

lemma token_of_first_char:
  assumes "token_of k = Some v"
  shows "k \<noteq> [] \<and> hd k \<in> set first_chars"
proof -
  from assms have "(k, v) \<in> set TOKENS"
    unfolding token_of_def by (rule map_of_SomeD)
  with TOKENS_first_chars show ?thesis by blast
qed

lemma match_keyword_no_first_char:
  assumes "upper_char c \<notin> set first_chars"
  shows "match_keyword n (c # rest) = None"
proof (induction n)
  case 0
  show ?case by (simp add: match_keyword.simps)
next
  case (Suc n)
  have "token_of (py_upper (take (Suc n) (c # rest))) = None"
  proof (cases "token_of (py_upper (take (Suc n) (c # rest)))")
    case None
    then show ?thesis .
  next
    case (Some v)
    from token_of_first_char[OF Some] assms show ?thesis
      by (simp add: py_upper_def)
  qed
  with Suc show ?case by (simp add: match_keyword.simps)
qed

lemma match_keyword_Cons:
  "match_keyword (Suc n) (c # rest) =
     (if upper_char c \<in> set first_chars
      then (case token_of (py_upper (take (Suc n) (c # rest))) of
              Some token \<Rightarrow> Some (Suc n, py_upper (take (Suc n) (c # rest)), token)
            | None \<Rightarrow> match_keyword n (c # rest))
      else None)"
proof (cases "upper_char c \<in> set first_chars")
  case True
  then show ?thesis by (simp add: match_keyword.simps Let_def split: option.split)
next
  case False
  then show ?thesis by (simp add: match_keyword_no_first_char)
qed

lemmas tokenize_eval =
  tokenize_line_def tokenize_loop.simps match_keyword.simps(1) match_keyword_Cons
  token_of_chain S_def first_chars_def py_upper_def upper_char_def bytearray_append_def
  else_colon_def

subsection \<open>A comment after a space and after none (claim C7)\<close>

text \<open>
  The bytes of a payload before the comment marker \<open>0x3A 0x8E 0xFF\<close> (all of them when
  there is no marker).
\<close>

fun code_portion :: "byte list \<Rightarrow> byte list" where
  "code_portion [] = []"
| "code_portion (b # bs) =
     (if take 3 (b # bs) = [0x3A, 0x8E, 0xFF] then [] else b # code_portion bs)"

lemma tokenize_print_space_comment:
  "tokenize_line (S ''PRINT 1 'hi'') = Inr [0xA3, 0x20, 0x31, 0x20, 0x3A, 0x8E, 0xFF]"
  by (simp add: tokenize_eval)

lemma tokenize_print_comment:
  "tokenize_line (S ''PRINT 1'hi'') = Inr [0xA3, 0x20, 0x31, 0x3A, 0x8E, 0xFF]"
  by (simp add: tokenize_eval)

text \<open>
  Claim C7 (amended). Tokenizing the code of \<^verbatim>\<open>10 PRINT 1 'hi\<close> and of \<^verbatim>\<open>10 PRINT 1'hi\<close>
  gives \<open>A3 20 31 20 3A 8E FF\<close> and \<open>A3 20 31 3A 8E FF\<close>: both payloads end with the
  comment marker and drop the comment text, and the code portion of the first is the
  code portion of the second, \<open>A3 20 31\<close>, followed by the space byte \<open>0x20\<close> that stood
  before the quote (the tokenizer copies spaces outside strings as they are).
\<close>

theorem tokenize_comment_with_and_without_space:
  "tokenize_line (S ''PRINT 1 'hi'') = Inr ([0xA3, 0x20, 0x31] @ [0x20] @ [0x3A, 0x8E, 0xFF])
   \<and> tokenize_line (S ''PRINT 1'hi'') = Inr ([0xA3, 0x20, 0x31] @ [0x3A, 0x8E, 0xFF])
   \<and> code_portion ([0xA3, 0x20, 0x31] @ [0x20] @ [0x3A, 0x8E, 0xFF])
       = code_portion ([0xA3, 0x20, 0x31] @ [0x3A, 0x8E, 0xFF]) @ [0x20]"
  using tokenize_print_space_comment tokenize_print_comment by simp

text \<open>The claim as stated fails: the two code portions differ.\<close>

theorem tokenize_comment_space_counterexample:
  "tokenize_line (S ''PRINT 1 'hi'') = Inr [0xA3, 0x20, 0x31, 0x20, 0x3A, 0x8E, 0xFF]
   \<and> tokenize_line (S ''PRINT 1'hi'') = Inr [0xA3, 0x20, 0x31, 0x3A, 0x8E, 0xFF]
   \<and> code_portion [0xA3, 0x20, 0x31, 0x20, 0x3A, 0x8E, 0xFF]
       \<noteq> code_portion [0xA3, 0x20, 0x31, 0x3A, 0x8E, 0xFF]"
  using tokenize_print_space_comment tokenize_print_comment by simp

subsection \<open>Characters that do not fit a byte (claim C10)\<close>

text \<open>
  The characters of a line that the tokenizer reads: those before the comment quote (the
  first single quote outside a string; the rest of the line is skipped), each with
  whether it is the content of a string literal, which is copied as it is. A double
  quote toggles the string unless the character before it is a backslash.
\<close>

fun scanned_chars :: "nat option \<Rightarrow> pystr \<Rightarrow> bool \<Rightarrow> (nat \<times> bool) list" where
  "scanned_chars prev [] in_string = []"
| "scanned_chars prev (c # rest) in_string =
     (if c = DQUOTE \<and> prev \<noteq> Some BACKSLASH
      then (c, False) # scanned_chars (Some c) rest (\<not> in_string)
      else if c = SQUOTE \<and> \<not> in_string then []
      else (c, in_string) # scanned_chars (Some c) rest in_string)"

lemma scanned_chars_subset: "(c, f) \<in> set (scanned_chars prev code s) \<Longrightarrow> c \<in> set code"
  by (induction code arbitrary: prev s) (auto split: if_splits)

text \<open>What the table says about every spelling and token.\<close>

lemma TOKENS_spellings:
  "\<forall>(k, v) \<in> set TOKENS. (\<forall>x\<in>set k. x < 128 \<and> x \<noteq> DQUOTE) \<and> (SQUOTE \<in> set k \<longrightarrow> k = [SQUOTE])
      \<and> v < 256"
  by (simp add: TOKENS_code)

lemma token_of_spelling:
  assumes "token_of k = Some v"
  shows "(\<forall>x\<in>set k. x < 128 \<and> x \<noteq> DQUOTE) \<and> (SQUOTE \<in> set k \<longrightarrow> k = [SQUOTE]) \<and> v < 256"
proof -
  from assms have "(k, v) \<in> set TOKENS"
    unfolding token_of_def by (rule map_of_SomeD)
  with TOKENS_spellings show ?thesis by blast
qed

lemma match_keyword_result:
  "match_keyword n rest = Some (k, u, t) \<Longrightarrow>
   1 \<le> k \<and> k \<le> n \<and> u = py_upper (take k rest) \<and> token_of u = Some t"
  by (induction n) (auto simp: match_keyword.simps Let_def split: option.splits)

lemma upper_char_facts:
  "upper_char x = DQUOTE \<longleftrightarrow> x = DQUOTE"
  "upper_char x = SQUOTE \<longleftrightarrow> x = SQUOTE"
  "upper_char x < 128 \<longleftrightarrow> x < 128"
  by (auto simp: upper_char_def)


lemma matched_candidate:
  assumes "match_keyword n (c # rest) = Some (k, u, t)" and "c \<noteq> SQUOTE"
  shows "1 \<le> k \<and> k \<le> n \<and> t < 256
         \<and> (\<forall>x\<in>set (take k (c # rest)). x < 128 \<and> x \<noteq> DQUOTE \<and> x \<noteq> SQUOTE)"
proof -
  let ?cand = "take k (c # rest)"
  from match_keyword_result[OF assms(1)]
  have k: "1 \<le> k" "k \<le> n" and u: "u = py_upper ?cand" and tok: "token_of u = Some t"
    by blast+
  note sp = token_of_spelling[OF tok]
  have ascii: "\<forall>x\<in>set ?cand. x < 128 \<and> x \<noteq> DQUOTE"
  proof
    fix x assume "x \<in> set ?cand"
    then have "upper_char x \<in> set u" by (simp add: u py_upper_def)
    with sp have "upper_char x < 128 \<and> upper_char x \<noteq> DQUOTE" by blast
    then show "x < 128 \<and> x \<noteq> DQUOTE" by (simp add: upper_char_facts)
  qed
  have "SQUOTE \<notin> set ?cand"
  proof
    assume q: "SQUOTE \<in> set ?cand"
    then have "upper_char SQUOTE \<in> set u" unfolding u py_upper_def by (simp only: set_map) blast
    then have "SQUOTE \<in> set u" by (simp add: upper_char_def)
    with sp have "u = [SQUOTE]" by blast
    then have "map upper_char ?cand = [SQUOTE]" by (simp add: u py_upper_def)
    moreover from k have "?cand = c # take (k - 1) rest" by (cases k) simp_all
    ultimately have "upper_char c = SQUOTE" by simp
    then show False using assms(2) by (simp add: upper_char_facts)
  qed
  with ascii k sp show ?thesis by blast
qed

lemma scanned_chars_skip:
  assumes "\<forall>x\<in>set cand. x \<noteq> DQUOTE \<and> x \<noteq> SQUOTE" and "cand \<noteq> []"
  shows "scanned_chars prev (cand @ rest) False
         = map (\<lambda>x. (x, False)) cand @ scanned_chars (Some (last cand)) rest False"
  using assms
proof (induction cand arbitrary: prev)
  case Nil
  then show ?case by simp
next
  case (Cons x cand)
  show ?case
  proof (cases "cand = []")
    case True
    with Cons.prems show ?thesis by simp
  next
    case False
    with Cons.IH[of "Some x"] Cons.prems show ?thesis by simp
  qed
qed

text \<open>The branches of the loop, one equation each.\<close>

lemma tokenize_loop_quote:
  assumes "c = DQUOTE \<and> prev \<noteq> Some BACKSLASH"
  shows "tokenize_loop prev (c # rest) s acc = tokenize_loop (Some c) rest (\<not> s) (acc @ [DQUOTE])"
  using assms by (subst tokenize_loop.simps(2)) auto

lemma tokenize_loop_comment:
  assumes "\<not> (c = DQUOTE \<and> prev \<noteq> Some BACKSLASH)" and "c = SQUOTE \<and> \<not> s"
  shows "tokenize_loop prev (c # rest) s acc = Inr (acc @ [0x3A, 0x8E, 0xFF])"
  using assms by (subst tokenize_loop.simps(2)) auto

lemma tokenize_loop_string:
  assumes "\<not> (c = DQUOTE \<and> prev \<noteq> Some BACKSLASH)" and s
  shows "tokenize_loop prev (c # rest) s acc
         = (if c < 256 then tokenize_loop (Some c) rest s (acc @ [c]) else Inl ValueError)"
  using assms by (subst tokenize_loop.simps(2)) (auto simp: bytearray_append_def)

lemma tokenize_loop_keyword:
  assumes "\<not> (c = DQUOTE \<and> prev \<noteq> Some BACKSLASH)" and "c \<noteq> SQUOTE" and "\<not> s"
    and "match_keyword (min 10 (length (c # rest))) (c # rest) = Some (k, u, t)"
  shows "tokenize_loop prev (c # rest) s acc
         = tokenize_loop (Some ((c # rest) ! (k - 1))) (drop k (c # rest)) s
             (else_colon u (acc @ [t]))"
  using assms by (subst tokenize_loop.simps(2)) auto

lemma tokenize_loop_raw:
  assumes "\<not> (c = DQUOTE \<and> prev \<noteq> Some BACKSLASH)" and "c \<noteq> SQUOTE" and "\<not> s"
    and "match_keyword (min 10 (length (c # rest))) (c # rest) = None"
  shows "tokenize_loop prev (c # rest) s acc
         = (if c < 256 then tokenize_loop (Some c) rest s (acc @ [c]) else Inl ValueError)"
  using assms by (subst tokenize_loop.simps(2)) (auto simp: bytearray_append_def)

text \<open>
  A matched keyword is skipped as a whole; its characters are ASCII and hold no quote,
  so the scan of the line passes over them outside a string.
\<close>

lemma scanned_chars_keyword:
  assumes "\<not> (c = DQUOTE \<and> prev \<noteq> Some BACKSLASH)" and "c \<noteq> SQUOTE"
    and "match_keyword (min 10 (length (c # rest))) (c # rest) = Some (k, u, t)"
  shows "scanned_chars prev (c # rest) False
         = map (\<lambda>x. (x, False)) (take k (c # rest))
           @ scanned_chars (Some ((c # rest) ! (k - 1))) (drop k (c # rest)) False"
    and "\<forall>x\<in>set (take k (c # rest)). x < 128" and "1 \<le> k" and "t < 256"
proof -
  let ?cand = "take k (c # rest)"
  from matched_candidate[OF assms(3,2)]
  have k: "1 \<le> k" "k \<le> min 10 (length (c # rest))" and t: "t < 256"
    and cand: "\<forall>x\<in>set ?cand. x < 128 \<and> x \<noteq> DQUOTE \<and> x \<noteq> SQUOTE"
    by blast+
  from k have ne: "?cand \<noteq> []" by (cases k) simp_all
  from k have "k \<le> length (c # rest)" by simp
  with k(1) have "last ?cand = (c # rest) ! (k - 1)"
    by (simp add: last_conv_nth ne min_def)
  moreover have "scanned_chars prev (?cand @ drop k (c # rest)) False
      = map (\<lambda>x. (x, False)) ?cand @ scanned_chars (Some (last ?cand)) (drop k (c # rest)) False"
    using cand ne by (intro scanned_chars_skip) blast+
  ultimately show "scanned_chars prev (c # rest) False
         = map (\<lambda>x. (x, False)) (take k (c # rest))
           @ scanned_chars (Some ((c # rest) ! (k - 1))) (drop k (c # rest)) False"
    by (simp only: append_take_drop_id)
  show "\<forall>x\<in>set (take k (c # rest)). x < 128" using cand by blast
  show "1 \<le> k" by (rule k(1))
  show "t < 256" by (rule t)
qed


lemma else_colon_bytes:
  assumes "\<forall>b\<in>set tokenized. b < 256"
  shows "\<forall>b\<in>set (else_colon u tokenized). b < 256"
proof (cases "u = S ''ELSE'' \<and> length tokenized > 1
               \<and> tokenized ! (length tokenized - 2) \<noteq> 0x3A")
  case True
  then have ne: "tokenized \<noteq> []" by auto
  have "else_colon u tokenized = butlast tokenized @ [0x3A, last tokenized]"
    using True by (simp add: else_colon_def)
  moreover have "\<forall>b\<in>set (butlast tokenized). b < 256"
    using assms by (auto dest: in_set_butlastD)
  moreover have "last tokenized < 256"
    using assms ne by simp
  ultimately show ?thesis by auto
next
  case False
  then have "else_colon u tokenized = tokenized" by (auto simp: else_colon_def)
  with assms show ?thesis by simp
qed

text \<open>Only a character above 255 that the tokenizer reads can make it fail.\<close>

lemma tokenize_loop_failure:
  "tokenize_loop prev code s acc = Inl e \<Longrightarrow>
   \<exists>c f. (c, f) \<in> set (scanned_chars prev code s) \<and> 255 < c"
proof (induction "length code" arbitrary: prev code s acc rule: less_induct)
  case less
  show ?case
  proof (cases code)
    case Nil
    with less.prems show ?thesis by (simp add: tokenize_loop.simps(1))
  next
    case (Cons c rest)
    note IH = less.hyps[unfolded Cons]
    note fails = less.prems[unfolded Cons]
    consider (quote) "c = DQUOTE \<and> prev \<noteq> Some BACKSLASH"
      | (comment) "\<not> (c = DQUOTE \<and> prev \<noteq> Some BACKSLASH)" "c = SQUOTE \<and> \<not> s"
      | (string) "\<not> (c = DQUOTE \<and> prev \<noteq> Some BACKSLASH)" "s"
      | (keyword) k u t where "\<not> (c = DQUOTE \<and> prev \<noteq> Some BACKSLASH)" "c \<noteq> SQUOTE" "\<not> s"
          "match_keyword (min 10 (length (c # rest))) (c # rest) = Some (k, u, t)"
      | (raw) "\<not> (c = DQUOTE \<and> prev \<noteq> Some BACKSLASH)" "c \<noteq> SQUOTE" "\<not> s"
          "match_keyword (min 10 (length (c # rest))) (c # rest) = None"
      by (cases "match_keyword (min 10 (length (c # rest))) (c # rest)") auto
    then show ?thesis
    proof cases
      case quote
      from fails have "tokenize_loop (Some c) rest (\<not> s) (acc @ [DQUOTE]) = Inl e"
        by (simp only: tokenize_loop_quote[OF quote])
      from IH[OF _ this] quote show ?thesis unfolding Cons by auto
    next
      case comment
      from fails[unfolded tokenize_loop_comment[OF comment]] show ?thesis by simp
    next
      case string
      show ?thesis
      proof (cases "c < 256")
        case True
        with fails have "tokenize_loop (Some c) rest s (acc @ [c]) = Inl e"
          by (simp only: tokenize_loop_string[OF string] if_True)
        from IH[OF _ this] string show ?thesis unfolding Cons by auto
      next
        case False
        then have "255 < c" by simp
        with string show ?thesis unfolding Cons by auto
      qed
    next
      case keyword
      note sc = scanned_chars_keyword[OF keyword(1,2,4)]
      from fails have "tokenize_loop (Some ((c # rest) ! (k - 1))) (drop k (c # rest)) s
                         (else_colon u (acc @ [t])) = Inl e"
        by (simp only: tokenize_loop_keyword[OF keyword])
      moreover have "length (drop k (c # rest)) < length (c # rest)"
        using sc(3) by simp
      ultimately obtain x f where
        "(x, f) \<in> set (scanned_chars (Some ((c # rest) ! (k - 1))) (drop k (c # rest)) s)"
        "255 < x"
        using IH by blast
      with keyword(3) sc(1) show ?thesis unfolding Cons by auto
    next
      case raw
      show ?thesis
      proof (cases "c < 256")
        case True
        with fails have "tokenize_loop (Some c) rest s (acc @ [c]) = Inl e"
          by (simp only: tokenize_loop_raw[OF raw] if_True)
        from IH[OF _ this] raw show ?thesis unfolding Cons by auto
      next
        case False
        then have "255 < c" by simp
        with raw show ?thesis unfolding Cons by auto
      qed
    qed
  qed
qed

text \<open>A character above 255 inside a string literal always makes it fail.\<close>

lemma tokenize_loop_string_failure:
  "(x, True) \<in> set (scanned_chars prev code s) \<Longrightarrow> 255 < x \<Longrightarrow>
   tokenize_loop prev code s acc = Inl ValueError"
proof (induction "length code" arbitrary: prev code s acc rule: less_induct)
  case less
  show ?case
  proof (cases code)
    case Nil
    with less.prems show ?thesis by simp
  next
    case (Cons c rest)
    note IH = less.hyps[unfolded Cons]
    note mem = less.prems(1)[unfolded Cons]
    note big = less.prems(2)
    consider (quote) "c = DQUOTE \<and> prev \<noteq> Some BACKSLASH"
      | (comment) "\<not> (c = DQUOTE \<and> prev \<noteq> Some BACKSLASH)" "c = SQUOTE \<and> \<not> s"
      | (string) "\<not> (c = DQUOTE \<and> prev \<noteq> Some BACKSLASH)" "s"
      | (keyword) k u t where "\<not> (c = DQUOTE \<and> prev \<noteq> Some BACKSLASH)" "c \<noteq> SQUOTE" "\<not> s"
          "match_keyword (min 10 (length (c # rest))) (c # rest) = Some (k, u, t)"
      | (raw) "\<not> (c = DQUOTE \<and> prev \<noteq> Some BACKSLASH)" "c \<noteq> SQUOTE" "\<not> s"
          "match_keyword (min 10 (length (c # rest))) (c # rest) = None"
      by (cases "match_keyword (min 10 (length (c # rest))) (c # rest)") auto
    then show ?thesis
    proof cases
      case quote
      with mem have "(x, True) \<in> set (scanned_chars (Some c) rest (\<not> s))" by auto
      from IH[OF _ this big] show ?thesis
        unfolding Cons by (simp only: tokenize_loop_quote[OF quote]) simp
    next
      case comment
      with mem show ?thesis by auto
    next
      case string
      show ?thesis
      proof (cases "c < 256")
        case True
        with mem string big have "(x, True) \<in> set (scanned_chars (Some c) rest s)" by auto
        from IH[OF _ this big] True show ?thesis
          unfolding Cons by (simp only: tokenize_loop_string[OF string] if_True) simp
      next
        case False
        then show ?thesis
          unfolding Cons by (simp only: tokenize_loop_string[OF string] if_False)
      qed
    next
      case keyword
      note sc = scanned_chars_keyword[OF keyword(1,2,4)]
      from mem keyword(3) sc(1)
      have "(x, True) \<in> set (scanned_chars (Some ((c # rest) ! (k - 1))) (drop k (c # rest)) s)"
        by auto
      moreover have "length (drop k (c # rest)) < length (c # rest)"
        using sc(3) by simp
      ultimately have "tokenize_loop (Some ((c # rest) ! (k - 1))) (drop k (c # rest)) s
                         (else_colon u (acc @ [t])) = Inl ValueError"
        using IH big by blast
      then show ?thesis
        unfolding Cons by (simp only: tokenize_loop_keyword[OF keyword])
    next
      case raw
      show ?thesis
      proof (cases "c < 256")
        case True
        with mem raw have "(x, True) \<in> set (scanned_chars (Some c) rest s)" by auto
        from IH[OF _ this big] True show ?thesis
          unfolding Cons by (simp only: tokenize_loop_raw[OF raw] if_True) simp
      next
        case False
        then show ?thesis
          unfolding Cons by (simp only: tokenize_loop_raw[OF raw] if_False)
      qed
    qed
  qed
qed

text \<open>Whatever the line, a payload that is returned holds bytes only.\<close>

lemma tokenize_loop_bytes:
  "tokenize_loop prev code s acc = Inr bs \<Longrightarrow> \<forall>b\<in>set acc. b < 256 \<Longrightarrow> \<forall>b\<in>set bs. b < 256"
proof (induction "length code" arbitrary: prev code s acc rule: less_induct)
  case less
  show ?case
  proof (cases code)
    case Nil
    with less.prems show ?thesis by (simp add: tokenize_loop.simps(1))
  next
    case (Cons c rest)
    note IH = less.hyps[unfolded Cons]
    note res = less.prems(1)[unfolded Cons]
    note acc = less.prems(2)
    consider (quote) "c = DQUOTE \<and> prev \<noteq> Some BACKSLASH"
      | (comment) "\<not> (c = DQUOTE \<and> prev \<noteq> Some BACKSLASH)" "c = SQUOTE \<and> \<not> s"
      | (string) "\<not> (c = DQUOTE \<and> prev \<noteq> Some BACKSLASH)" "s"
      | (keyword) k u t where "\<not> (c = DQUOTE \<and> prev \<noteq> Some BACKSLASH)" "c \<noteq> SQUOTE" "\<not> s"
          "match_keyword (min 10 (length (c # rest))) (c # rest) = Some (k, u, t)"
      | (raw) "\<not> (c = DQUOTE \<and> prev \<noteq> Some BACKSLASH)" "c \<noteq> SQUOTE" "\<not> s"
          "match_keyword (min 10 (length (c # rest))) (c # rest) = None"
      by (cases "match_keyword (min 10 (length (c # rest))) (c # rest)") auto
    then show ?thesis
    proof cases
      case quote
      from res have step: "tokenize_loop (Some c) rest (\<not> s) (acc @ [DQUOTE]) = Inr bs"
        by (simp only: tokenize_loop_quote[OF quote])
      have "\<forall>b\<in>set (acc @ [DQUOTE]). b < 256" using acc by simp
      from IH[OF _ step this] show ?thesis by simp
    next
      case comment
      from res[unfolded tokenize_loop_comment[OF comment]]
      have "bs = acc @ [0x3A, 0x8E, 0xFF]" by simp
      with acc show ?thesis by simp
    next
      case string
      from res[unfolded tokenize_loop_string[OF string]]
      have c: "c < 256" and step: "tokenize_loop (Some c) rest s (acc @ [c]) = Inr bs"
        by (simp_all split: if_splits)
      have "\<forall>b\<in>set (acc @ [c]). b < 256" using acc c by simp
      from IH[OF _ step this] show ?thesis by simp
    next
      case keyword
      note sc = scanned_chars_keyword[OF keyword(1,2,4)]
      from res have step: "tokenize_loop (Some ((c # rest) ! (k - 1))) (drop k (c # rest)) s
                         (else_colon u (acc @ [t])) = Inr bs"
        by (simp only: tokenize_loop_keyword[OF keyword])
      have shorter: "length (drop k (c # rest)) < length (c # rest)"
        using sc(3) by simp
      have "\<forall>b\<in>set (else_colon u (acc @ [t])). b < 256"
        using acc sc(4) by (intro else_colon_bytes) simp
      from IH[OF shorter step this] show ?thesis .
    next
      case raw
      from res[unfolded tokenize_loop_raw[OF raw]]
      have c: "c < 256" and step: "tokenize_loop (Some c) rest s (acc @ [c]) = Inr bs"
        by (simp_all split: if_splits)
      have "\<forall>b\<in>set (acc @ [c]). b < 256" using acc c by simp
      from IH[OF _ step this] show ?thesis by simp
    qed
  qed
qed


text \<open>The command-line loop emits nothing for a line on which tokenization fails.\<close>

lemma tokenized_lines_of_append:
  "tokenized_lines_of (xs @ ys) = tokenized_lines_of xs @ tokenized_lines_of ys"
  by (induction xs) (auto simp: Let_def split: sum.splits prod.splits)

lemma tokenized_lines_of_failure:
  assumes "parse_line (rstrip_newline raw) = Inr (n, code)" and "tokenize_line code = Inl e"
  shows "tokenized_lines_of (pre @ raw # post) = tokenized_lines_of (pre @ post)"
proof -
  have "tokenized_lines_of [raw] = []"
    using assms by (simp add: Let_def)
  then have "tokenized_lines_of (pre @ [raw] @ post) = tokenized_lines_of (pre @ post)"
    by (simp only: tokenized_lines_of_append append_Nil)
  then show ?thesis by simp
qed

lemma tokenize_line_total:
  assumes "\<forall>c\<in>set code. c \<le> 255"
  shows "\<exists>bs. tokenize_line code = Inr bs \<and> (\<forall>b\<in>set bs. b < 256)"
proof (cases "tokenize_line code")
  case (Inl e)
  then obtain c f where "(c, f) \<in> set (scanned_chars None code False)" "255 < c"
    unfolding tokenize_line_def using tokenize_loop_failure by blast
  then have "c \<in> set code" "255 < c" by (auto dest: scanned_chars_subset)
  with assms show ?thesis by auto
next
  case (Inr bs)
  then have "\<forall>b\<in>set bs. b < 256"
    unfolding tokenize_line_def using tokenize_loop_bytes[of None code False "[]" bs] by simp
  with Inr show ?thesis by simp
qed

text \<open>
  Claim C10 (amended). Tokenization of a line fails only if the line holds a character
  above 255 among the characters the tokenizer reads, that is before the comment quote:
  what follows the comment quote is skipped and cannot make it fail. It does fail
  whenever such a character is inside a string literal before the comment quote. When
  tokenization of a line fails, the command-line loop skips the line and the output is
  the output for the file without that line. For a line whose characters are all at
  most 255, \<open>tokenize_line\<close> returns a sequence of bytes.
\<close>

theorem tokenize_line_wide_characters:
  "(tokenize_line code = Inl e
      \<longrightarrow> (\<exists>c f. (c, f) \<in> set (scanned_chars None code False) \<and> 255 < c))
   \<and> ((\<exists>c. (c, True) \<in> set (scanned_chars None code False) \<and> 255 < c)
      \<longrightarrow> tokenize_line code = Inl ValueError)
   \<and> ((\<forall>c\<in>set code. c \<le> 255)
      \<longrightarrow> (\<exists>bs. tokenize_line code = Inr bs \<and> (\<forall>b\<in>set bs. b < 256)))
   \<and> (parse_line (rstrip_newline raw) = Inr (n, code) \<and> tokenize_line code = Inl e
      \<longrightarrow> create_tokenized_file (pre @ raw # post) base_address
          = create_tokenized_file (pre @ post) base_address)"
proof (intro conjI impI)
  assume "tokenize_line code = Inl e"
  then show "\<exists>c f. (c, f) \<in> set (scanned_chars None code False) \<and> 255 < c"
    unfolding tokenize_line_def by (rule tokenize_loop_failure)
next
  assume "\<exists>c. (c, True) \<in> set (scanned_chars None code False) \<and> 255 < c"
  then show "tokenize_line code = Inl ValueError"
    unfolding tokenize_line_def using tokenize_loop_string_failure by blast
next
  assume "\<forall>c\<in>set code. c \<le> 255"
  then show "\<exists>bs. tokenize_line code = Inr bs \<and> (\<forall>b\<in>set bs. b < 256)"
    by (rule tokenize_line_total)
next
  assume "parse_line (rstrip_newline raw) = Inr (n, code) \<and> tokenize_line code = Inl e"
  then show "create_tokenized_file (pre @ raw # post) base_address
          = create_tokenized_file (pre @ post) base_address"
    by (simp add: create_tokenized_file_def tokenized_lines_of_failure)
qed

lemmas parse_eval =
  parse_line_def py_int_def int_strip_def int_isspace_def max_str_digits_def py_strip_def
  py_rstrip_def py_isspace_def py_isdigit_def
  int_of_digits_def rstrip_newline_def S_def Let_def

text \<open>
  The theorem on a line with the number 10 whose code is a double quote followed by the
  character U+20AC (code point 8364), so that the character is inside a string:
  tokenization fails and the file is encoded as if the line were not there.
\<close>

theorem tokenize_line_wide_characters_witness:
  "tokenize_line [DQUOTE, 8364] = Inl ValueError
   \<and> create_tokenized_file [S ''10 '' @ [DQUOTE, 8364], S ''20 END''] 0x8001
     = create_tokenized_file [S ''20 END''] 0x8001"
proof -
  let ?code = "[DQUOTE, 8364]" and ?raw = "S ''10 '' @ [DQUOTE, 8364]"
  note inst = tokenize_line_wide_characters[of ?code ValueError ?raw 10 "[]" "[S ''20 END'']" "0x8001"]
  have "\<exists>c. (c, True) \<in> set (scanned_chars None ?code False) \<and> 255 < c"
    by (rule exI[of _ 8364]) simp
  with inst have fails: "tokenize_line ?code = Inl ValueError" by blast
  have "parse_line (rstrip_newline ?raw) = Inr (10, ?code)"
    by (simp add: parse_eval)
  with inst fails
  have "create_tokenized_file ([] @ ?raw # [S ''20 END'']) 0x8001
        = create_tokenized_file ([] @ [S ''20 END'']) 0x8001"
    by blast
  with fails show ?thesis by simp
qed

text \<open>
  The claim as stated fails when the character stands after the comment quote: the
  code made of a single quote followed by the character U+20AC is tokenized, and the
  line with the number 10 and that code gets its record.
\<close>

theorem tokenize_line_comment_counterexample:
  "tokenize_line [SQUOTE, 8364] = Inr [0x3A, 0x8E, 0xFF]
   \<and> tokenized_lines_of [S ''10 '' @ [SQUOTE, 8364]] = [(10, [0x3A, 0x8E, 0xFF])]"
proof -
  have tok: "tokenize_line [SQUOTE, 8364] = Inr [0x3A, 0x8E, 0xFF]"
    by (simp add: tokenize_line_def tokenize_loop.simps)
  have "parse_line (rstrip_newline (S ''10 '' @ [SQUOTE, 8364])) = Inr (10, [SQUOTE, 8364])"
    by (simp add: parse_eval)
  moreover have "py_strip (rstrip_newline (S ''10 '' @ [SQUOTE, 8364])) \<noteq> []"
    by (simp add: parse_eval)
  ultimately have "tokenized_lines_of [S ''10 '' @ [SQUOTE, 8364]] = [(10, [0x3A, 0x8E, 0xFF])]"
    using tok by (simp add: Let_def)
  with tok show ?thesis by (rule conjI)
qed

subsection \<open>The colon before the token of \<^verbatim>\<open>ELSE\<close> (claim C6)\<close>

text \<open>
  Every byte \<open>0x91\<close> of a payload, the first byte aside, has the colon byte before it.
\<close>

fun else_preceded :: "byte list \<Rightarrow> bool" where
  "else_preceded [] = True"
| "else_preceded [b] = True"
| "else_preceded (a # b # bs) = ((b = 0x91 \<longrightarrow> a = 0x3A) \<and> else_preceded (b # bs))"

lemma else_preceded_snoc:
  "else_preceded (bs @ [b]) \<longleftrightarrow> else_preceded bs \<and> (b = 0x91 \<longrightarrow> bs = [] \<or> last bs = 0x3A)"
  by (induction bs rule: else_preceded.induct) auto

lemma else_preceded_nth:
  "else_preceded bs \<longleftrightarrow> (\<forall>i. 0 < i \<and> i < length bs \<and> bs ! i = 0x91 \<longrightarrow> bs ! (i - 1) = 0x3A)"
proof (induction bs rule: else_preceded.induct)
  case 1
  show ?case by simp
next
  case (2 b)
  show ?case by simp
next
  case (3 a b bs)
  have "(\<forall>i. 0 < i \<and> i < length (a # b # bs) \<and> (a # b # bs) ! i = 0x91
            \<longrightarrow> (a # b # bs) ! (i - 1) = 0x3A)
        \<longleftrightarrow> (b = 0x91 \<longrightarrow> a = 0x3A)
            \<and> (\<forall>i. 0 < i \<and> i < length (b # bs) \<and> (b # bs) ! i = 0x91
                  \<longrightarrow> (b # bs) ! (i - 1) = 0x3A)"
  proof (intro iffI conjI allI impI)
    assume h: "\<forall>i. 0 < i \<and> i < length (a # b # bs) \<and> (a # b # bs) ! i = 0x91
            \<longrightarrow> (a # b # bs) ! (i - 1) = 0x3A"
    { assume "b = 0x91" with h[rule_format, of 1] show "a = 0x3A" by simp }
    { fix i assume "0 < i \<and> i < length (b # bs) \<and> (b # bs) ! i = 0x91"
      with h[rule_format, of "Suc i"] show "(b # bs) ! (i - 1) = 0x3A"
        by (cases i) simp_all }
  next
    fix i
    assume h: "(b = 0x91 \<longrightarrow> a = 0x3A)
            \<and> (\<forall>i. 0 < i \<and> i < length (b # bs) \<and> (b # bs) ! i = 0x91
                  \<longrightarrow> (b # bs) ! (i - 1) = 0x3A)"
      and i: "0 < i \<and> i < length (a # b # bs) \<and> (a # b # bs) ! i = 0x91"
    show "(a # b # bs) ! (i - 1) = 0x3A"
    proof (cases "i = 1")
      case True
      with h i show ?thesis by simp
    next
      case False
      with i obtain j where j: "i = Suc j" "0 < j" by (cases i) auto
      with h i have "(b # bs) ! (j - 1) = 0x3A" by simp
      with j show ?thesis by (cases j) simp_all
    qed
  qed
  with 3 show ?case by simp
qed


lemma TOKENS_else: "\<forall>(k, v) \<in> set TOKENS. v = 0x91 \<longrightarrow> k = S ''ELSE''"
  by (simp add: TOKENS_code S_def)

lemma token_of_else: "token_of u = Some 0x91 \<Longrightarrow> u = S ''ELSE''"
proof -
  assume "token_of u = Some 0x91"
  then have "(u, 0x91) \<in> set TOKENS"
    unfolding token_of_def by (rule map_of_SomeD)
  with TOKENS_else show ?thesis by blast
qed

lemma else_colon_preceded:
  assumes "else_preceded acc" and "token_of u = Some t"
  shows "else_preceded (else_colon u (acc @ [t]))"
proof (cases "u = S ''ELSE''")
  case False
  with assms(2) have "t \<noteq> 0x91" using token_of_else by blast
  with assms(1) False show ?thesis
    by (simp add: else_colon_def else_preceded_snoc)
next
  case True
  show ?thesis
  proof (cases "acc = []")
    case Nil: True
    then show ?thesis by (simp add: else_colon_def)
  next
    case nonempty: False
    then have idx: "(acc @ [t]) ! (length (acc @ [t]) - 2) = last acc"
      by (simp add: nth_append last_conv_nth)
    show ?thesis
    proof (cases "last acc = 0x3A")
      case colon: True
      with True nonempty idx have "else_colon u (acc @ [t]) = acc @ [t]"
        by (simp add: else_colon_def)
      with assms(1) colon show ?thesis by (simp add: else_preceded_snoc)
    next
      case nocolon: False
      with True nonempty idx have "else_colon u (acc @ [t]) = (acc @ [0x3A]) @ [t]"
        by (simp add: else_colon_def)
      moreover have "else_preceded (acc @ [0x3A])"
        using assms(1) by (simp add: else_preceded_snoc)
      ultimately show ?thesis by (simp only: else_preceded_snoc) simp
    qed
  qed
qed

lemma tokenize_loop_else_preceded:
  "tokenize_loop prev code s acc = Inr bs \<Longrightarrow> \<forall>c\<in>set code. c < 128 \<Longrightarrow>
   else_preceded acc \<Longrightarrow> else_preceded bs"
proof (induction "length code" arbitrary: prev code s acc rule: less_induct)
  case less
  show ?case
  proof (cases code)
    case Nil
    with less.prems show ?thesis by (simp add: tokenize_loop.simps(1))
  next
    case (Cons c rest)
    note IH = less.hyps[unfolded Cons]
    note res = less.prems(1)[unfolded Cons]
    note ascii = less.prems(2)[unfolded Cons]
    note inv = less.prems(3)
    from ascii have c: "c < 128" and rest: "\<forall>x\<in>set rest. x < 128" by simp_all
    consider (quote) "c = DQUOTE \<and> prev \<noteq> Some BACKSLASH"
      | (comment) "\<not> (c = DQUOTE \<and> prev \<noteq> Some BACKSLASH)" "c = SQUOTE \<and> \<not> s"
      | (string) "\<not> (c = DQUOTE \<and> prev \<noteq> Some BACKSLASH)" "s"
      | (keyword) k u t where "\<not> (c = DQUOTE \<and> prev \<noteq> Some BACKSLASH)" "c \<noteq> SQUOTE" "\<not> s"
          "match_keyword (min 10 (length (c # rest))) (c # rest) = Some (k, u, t)"
      | (raw) "\<not> (c = DQUOTE \<and> prev \<noteq> Some BACKSLASH)" "c \<noteq> SQUOTE" "\<not> s"
          "match_keyword (min 10 (length (c # rest))) (c # rest) = None"
      by (cases "match_keyword (min 10 (length (c # rest))) (c # rest)") auto
    then show ?thesis
    proof cases
      case quote
      from res have step: "tokenize_loop (Some c) rest (\<not> s) (acc @ [DQUOTE]) = Inr bs"
        by (simp only: tokenize_loop_quote[OF quote])
      have "else_preceded (acc @ [DQUOTE])" using inv by (simp add: else_preceded_snoc)
      from IH[OF _ step rest this] show ?thesis by simp
    next
      case comment
      from res[unfolded tokenize_loop_comment[OF comment]]
      have "bs = ((acc @ [0x3A]) @ [0x8E]) @ [0xFF]" by simp
      with inv show ?thesis by (simp only: else_preceded_snoc) simp
    next
      case string
      from res[unfolded tokenize_loop_string[OF string]]
      have step: "tokenize_loop (Some c) rest s (acc @ [c]) = Inr bs"
        by (simp split: if_splits)
      have "else_preceded (acc @ [c])" using inv c by (simp add: else_preceded_snoc)
      from IH[OF _ step rest this] show ?thesis by simp
    next
      case keyword
      note sc = scanned_chars_keyword[OF keyword(1,2,4)]
      from res have step: "tokenize_loop (Some ((c # rest) ! (k - 1))) (drop k (c # rest)) s
                         (else_colon u (acc @ [t])) = Inr bs"
        by (simp only: tokenize_loop_keyword[OF keyword])
      have shorter: "length (drop k (c # rest)) < length (c # rest)"
        using sc(3) by simp
      have dropped: "\<forall>x\<in>set (drop k (c # rest)). x < 128"
      proof
        fix x assume "x \<in> set (drop k (c # rest))"
        then have "x \<in> set (c # rest)" by (rule in_set_dropD)
        with ascii show "x < 128" by blast
      qed
      from match_keyword_result[OF keyword(4)] have "token_of u = Some t" by blast
      with inv have "else_preceded (else_colon u (acc @ [t]))"
        by (rule else_colon_preceded)
      from IH[OF shorter step dropped this] show ?thesis .
    next
      case raw
      from res[unfolded tokenize_loop_raw[OF raw]]
      have step: "tokenize_loop (Some c) rest s (acc @ [c]) = Inr bs"
        by (simp split: if_splits)
      have "else_preceded (acc @ [c])" using inv c by (simp add: else_preceded_snoc)
      from IH[OF _ step rest this] show ?thesis by simp
    qed
  qed
qed

text \<open>
  On ASCII lines the claim holds for every token of \<^verbatim>\<open>ELSE\<close> but one at the very start of
  the payload.
\<close>

lemma tokenize_line_else_after_first:
  assumes "\<forall>c\<in>set code. c < 128" and "tokenize_line code = Inr bs"
    and "0 < i" and "i < length bs" and "bs ! i = 0x91"
  shows "bs ! (i - 1) = 0x3A"
proof -
  have "else_preceded bs"
    using assms(2,1) unfolding tokenize_line_def
    by (rule tokenize_loop_else_preceded) simp
  with assms(3-5) show ?thesis
    unfolding else_preceded_nth by blast
qed

lemma tokenize_if_then_else:
  "tokenize_line (S ''IF A THEN 20 ELSE 30'')
   = Inr [0x8A, 0x20, 0x41, 0x20, 0xCD, 0x20, 0x32, 0x30, 0x20, 0x3A, 0x91, 0x20, 0x33, 0x30]"
  by (simp add: tokenize_eval)

lemma tokenize_else_first:
  "tokenize_line (S ''ELSE 30'') = Inr [0x91, 0x20, 0x33, 0x30]"
  by (simp add: tokenize_eval)

text \<open>
  Claim C6 says that every token byte \<open>0x91\<close> emitted for a match of \<^verbatim>\<open>ELSE\<close> is
  immediately preceded by the colon byte \<open>0x3A\<close>. It holds on the code of
  \<^verbatim>\<open>10 IF A THEN 20 ELSE 30\<close>, where the colon is inserted after the space, and on
  every ASCII line for every such token after the first byte of the payload
  (\<open>tokenize_line_else_after_first\<close>). It fails
  when \<^verbatim>\<open>ELSE\<close> is the first keyword of the line: the test \<^verbatim>\<open>len(tokenized) > 1\<close> is
  false then, no colon is inserted, and the payload of the code \<^verbatim>\<open>ELSE 30\<close> starts with
  the byte \<open>0x91\<close>.
\<close>

theorem tokenize_else_first_no_colon:
  "tokenize_line (S ''ELSE 30'') = Inr [0x91, 0x20, 0x33, 0x30]
   \<and> tokenize_line (S ''IF A THEN 20 ELSE 30'')
     = Inr [0x8A, 0x20, 0x41, 0x20, 0xCD, 0x20, 0x32, 0x30, 0x20, 0x3A, 0x91, 0x20, 0x33, 0x30]"
  using tokenize_else_first tokenize_if_then_else by (rule conjI)

section \<open>Properties of the packer\<close>

subsection \<open>Which quote \<^verbatim>\<open>remove_trailing_quote\<close> removes (claim C5)\<close>

lemma quote_state_parity:
  "quote_state line in_string = (if even (count_list line DQUOTE) then in_string else \<not> in_string)"
  by (induction line arbitrary: in_string) auto

text \<open>
  Claim C5 (amended). The pass removes the final quote of a line precisely when that
  quote closes a string literal: when the line, white space at its end aside, ends with a
  double quote and holds an even number of double quotes. The result is then the line
  without its trailing white space and without that quote. In every other case, also
  when the final quote opens a string that is never closed, the line is returned
  unchanged.
\<close>

theorem remove_trailing_quote_closing:
  "remove_trailing_quote line =
     (if endswith_quote (py_rstrip line) \<and> even (count_list line DQUOTE)
      then butlast (py_rstrip line)
      else line)"
proof (cases "line = []")
  case True
  then show ?thesis
    by (simp add: remove_trailing_quote_def endswith_quote_def py_rstrip_def)
next
  case False
  then show ?thesis
    by (simp add: remove_trailing_quote_def quote_state_parity)
qed

text \<open>
  The claim as stated fails in both directions: a final quote that opens a string is
  kept, and a final quote that closes one is removed.
\<close>

theorem remove_trailing_quote_counterexample:
  \<open>remove_trailing_quote (S ''A$="'') = S ''A$="''
   \<and> remove_trailing_quote (S ''PRINT "HI"'') = S ''PRINT "HI''\<close>
  by (simp add: remove_trailing_quote_def endswith_quote_def py_rstrip_def py_isspace_def S_def)

subsection \<open>What \<^verbatim>\<open>remove_comment\<close> removes (claim C8)\<close>

text \<open>
  The comment quote of a line is its first single quote outside strings. In \<open>pre\<close>, read
  with \<^verbatim>\<open>in_string\<close> as given, no single quote stands outside a string:
\<close>

fun no_comment_quote :: "pystr \<Rightarrow> bool \<Rightarrow> bool" where
  "no_comment_quote [] in_string = True"
| "no_comment_quote (c # rest) in_string =
     (if c = DQUOTE then no_comment_quote rest (\<not> in_string)
      else if c = SQUOTE \<and> \<not> in_string then False
      else no_comment_quote rest in_string)"

definition strip_spaces :: "pystr \<Rightarrow> pystr" where
  "strip_spaces s = rev (dropWhile (\<lambda>c. c = SPACE) (rev s))"

definition drop_one_colon :: "pystr \<Rightarrow> pystr" where
  "drop_one_colon s = (if s \<noteq> [] \<and> last s = COLON then butlast s else s)"

lemma backtrack_colon_snoc:
  "backtrack_colon (s @ [c]) =
     (if c = COLON then s else if c = SPACE then backtrack_colon s else s @ [c])"
  by (subst backtrack_colon.simps) simp

lemma backtrack_colon_closed: "backtrack_colon s = drop_one_colon (strip_spaces s)"
proof (induction s rule: rev_induct)
  case Nil
  show ?case
    by (subst backtrack_colon.simps) (simp add: drop_one_colon_def strip_spaces_def)
next
  case (snoc c s)
  then show ?case
    by (simp add: backtrack_colon_snoc drop_one_colon_def strip_spaces_def)
qed

lemma remove_comment_loop_prefix:
  "no_comment_quote pre in_string \<Longrightarrow>
   remove_comment_loop (pre @ rest) in_string result
   = remove_comment_loop rest (quote_state pre in_string) (result @ pre)"
  by (induction pre arbitrary: in_string result) (auto split: if_splits)

lemma no_comment_quote_index:
  "no_comment_quote pre in_string \<longleftrightarrow>
   (\<forall>k<length pre. pre ! k = SQUOTE \<longrightarrow> quote_state (take k pre) in_string)"
proof (induction pre arbitrary: in_string)
  case Nil
  show ?case by simp
next
  case (Cons c pre)
  show ?case
    by (auto simp: Cons.IH less_Suc_eq_0_disj)
qed

lemma no_comment_quote_parity:
  "no_comment_quote pre False \<longleftrightarrow>
   (\<forall>k<length pre. pre ! k = SQUOTE \<longrightarrow> odd (count_list (take k pre) DQUOTE))"
  unfolding no_comment_quote_index quote_state_parity by auto

lemma remove_comment_marker:
  assumes "even (count_list pre DQUOTE)" and "no_comment_quote pre False"
  shows "remove_comment (pre @ SQUOTE # post) = py_rstrip (drop_one_colon (strip_spaces pre))"
proof -
  have "remove_comment_loop (pre @ SQUOTE # post) False []
        = remove_comment_loop (SQUOTE # post) (quote_state pre False) ([] @ pre)"
    using assms(2) by (rule remove_comment_loop_prefix)
  also have "\<dots> = backtrack_colon pre"
    using assms(1) by (simp add: quote_state_parity)
  finally show ?thesis
    by (simp add: remove_comment_def backtrack_colon_closed)
qed

lemma remove_comment_no_marker:
  assumes "no_comment_quote line False"
  shows "remove_comment line = py_rstrip line"
proof -
  have "remove_comment_loop (line @ []) False [] = remove_comment_loop [] (quote_state line False) ([] @ line)"
    using assms by (rule remove_comment_loop_prefix)
  then show ?thesis by (simp add: remove_comment_def)
qed

text \<open>
  Claim C8 (amended). When the first single quote outside a string literal stands after
  \<open>pre\<close>, comment removal discards that quote and everything after it, then the spaces
  immediately before it, then at most one colon before those spaces, and last the white
  space at the end of what is left; the characters before that, also those inside string
  literals, are copied as they are. A line with no single quote outside a string literal
  only loses the white space at its end.
\<close>

theorem remove_comment_characterisation:
  "(even (count_list pre DQUOTE)
      \<and> (\<forall>k<length pre. pre ! k = SQUOTE \<longrightarrow> odd (count_list (take k pre) DQUOTE))
    \<longrightarrow> remove_comment (pre @ SQUOTE # post) = py_rstrip (drop_one_colon (strip_spaces pre)))
   \<and> ((\<forall>k<length line. line ! k = SQUOTE \<longrightarrow> odd (count_list (take k line) DQUOTE))
    \<longrightarrow> remove_comment line = py_rstrip line)"
  using remove_comment_marker[of pre post] remove_comment_no_marker[of line]
  by (simp add: no_comment_quote_parity)

text \<open>
  The theorem on \<^verbatim>\<open>PRINT "it's" : 'c\<close>, where the first single quote is inside a string,
  and on \<^verbatim>\<open>A$="x'y"\<close>, which has no comment.
\<close>

theorem remove_comment_characterisation_witness:
  \<open>remove_comment (S ''PRINT "it's" : 'c'') = S ''PRINT "it's"''
   \<and> remove_comment (S ''A$="x'y"'') = S ''A$="x'y"''\<close>
proof -
  let ?pre = \<open>S ''PRINT "it's" : ''\<close> and ?post = "S ''c''" and ?line = \<open>S ''A$="x'y"''\<close>
  have pre: "even (count_list ?pre DQUOTE)
      \<and> (\<forall>k<length ?pre. ?pre ! k = SQUOTE \<longrightarrow> odd (count_list (take k ?pre) DQUOTE))"
    unfolding no_comment_quote_parity[symmetric] by (simp add: S_def)
  have line: "\<forall>k<length ?line. ?line ! k = SQUOTE \<longrightarrow> odd (count_list (take k ?line) DQUOTE)"
    unfolding no_comment_quote_parity[symmetric] by (simp add: S_def)
  have r1: "py_rstrip (drop_one_colon (strip_spaces ?pre)) = S ''PRINT \"it's\"''"
    by (simp add: S_def py_rstrip_def drop_one_colon_def strip_spaces_def py_isspace_def)
  have r2: "py_rstrip ?line = ?line"
    by (simp add: S_def py_rstrip_def py_isspace_def)
  have split: "S ''PRINT \"it's\" : 'c'' = ?pre @ SQUOTE # ?post"
    by (simp add: S_def)
  from remove_comment_characterisation[of ?pre ?post ?line] pre line
  have "remove_comment (?pre @ SQUOTE # ?post) = py_rstrip (drop_one_colon (strip_spaces ?pre))"
    and "remove_comment ?line = py_rstrip ?line"
    by blast+
  then show ?thesis
    unfolding split r1 r2 by (rule conjI)
qed

text \<open>
  The claim as stated fails on a run of two colons: only one of them is removed (the
  loop stops after the first colon it pops).
\<close>

theorem remove_comment_colon_run_counterexample:
  "remove_comment (S ''A::'x'') = S ''A:''"
  by (simp add: remove_comment_def backtrack_colon.simps py_rstrip_def py_isspace_def S_def)

subsection \<open>No merge after a line that the classifier flags (claim C3)\<close>

lemma flush_current_Nil [simp]: "flush_current M n [] = []"
  by (simp add: flush_current_def)

lemma merge_step_initial:
  "merge_step T M initial_merge_state L
   = \<lparr>merged = [], current_start_line = Some (fst L), current_code = [snd L],
      prevent_merge = ends_with_control_flow (snd L)\<rparr>"
  by (simp add: merge_step_def initial_merge_state_def Let_def)

lemma merge_step_prevented:
  assumes "prevent_merge st" and "current_start_line st = Some n"
  shows "merge_step T M st L
   = \<lparr>merged = merged st @ flush_current M n (current_code st),
      current_start_line = Some (fst L), current_code = [snd L],
      prevent_merge = ends_with_control_flow (snd L)\<rparr>"
  using assms by (simp add: merge_step_def Let_def)

lemma merge_step_fields:
  "current_start_line (merge_step T M st L) \<noteq> None"
  "prevent_merge (merge_step T M st L) = ends_with_control_flow (snd L)"
  "current_code (merge_step T M st L) \<noteq> []"
  "last (current_code (merge_step T M st L)) = snd L"
  by (simp_all add: merge_step_def Let_def split: option.splits)

text \<open>Entries already in \<open>merged\<close> stay in front: a step only appends to them.\<close>

lemma merge_step_prepend:
  "merge_step T M (st\<lparr>merged := m0 @ merged st\<rparr>) L
   = (merge_step T M st L)\<lparr>merged := m0 @ merged (merge_step T M st L)\<rparr>"
  by (simp add: merge_step_def Let_def split: option.splits)

lemma foldl_merge_step_prepend:
  "foldl (merge_step T M) (st\<lparr>merged := m0 @ merged st\<rparr>) ls
   = (foldl (merge_step T M) st ls)\<lparr>merged := m0 @ merged (foldl (merge_step T M) st ls)\<rparr>"
proof (induction ls arbitrary: st)
  case Nil
  show ?case by simp
next
  case (Cons L ls)
  show ?case
    by (simp add: merge_step_prepend Cons.IH)
qed

lemma final_flush_prepend:
  "final_flush M (st\<lparr>merged := m0 @ merged st\<rparr>) = m0 @ final_flush M st"
  by (simp add: final_flush_def split: option.splits)

lemma merge_lines_split:
  assumes "ends_with_control_flow (snd L1)"
  shows "merge_lines (pre @ L1 # L2 # post) T M
         = merge_lines (pre @ [L1]) T M @ merge_lines (L2 # post) T M"
proof -
  let ?step = "merge_step T M"
  define s1 where "s1 = foldl ?step initial_merge_state (pre @ [L1])"
  have s1_step: "s1 = ?step (foldl ?step initial_merge_state pre) L1"
    by (simp add: s1_def)
  obtain n where n: "current_start_line s1 = Some n"
    using merge_step_fields(1)[of T M "foldl ?step initial_merge_state pre" L1]
    by (auto simp: s1_step)
  have prevent: "prevent_merge s1"
    using assms by (simp add: s1_step merge_step_fields(2))
  have "merge_lines (pre @ [L1]) T M = final_flush M s1"
    unfolding merge_lines_def s1_def ..
  then have first: "merge_lines (pre @ [L1]) T M = merged s1 @ flush_current M n (current_code s1)"
    by (simp add: final_flush_def n)
  let ?s2 = "?step initial_merge_state L2"
  have "?step s1 L2 = ?s2\<lparr>merged := merge_lines (pre @ [L1]) T M @ merged ?s2\<rparr>"
    by (simp add: merge_step_prevented[OF prevent n] merge_step_initial first)
  then have "foldl ?step (?step s1 L2) post
      = (foldl ?step ?s2 post)\<lparr>merged := merge_lines (pre @ [L1]) T M @ merged (foldl ?step ?s2 post)\<rparr>"
    by (simp only: foldl_merge_step_prepend)
  then have "final_flush M (foldl ?step (?step s1 L2) post)
      = merge_lines (pre @ [L1]) T M @ final_flush M (foldl ?step ?s2 post)"
    by (simp only: final_flush_prepend)
  moreover have "foldl ?step initial_merge_state (pre @ L1 # L2 # post)
      = foldl ?step (?step s1 L2) post"
    by (simp add: s1_def)
  ultimately show ?thesis
    by (simp add: merge_lines_def)
qed

text \<open>The physical line that ends the first part ends with the code of its last line.\<close>

lemma join_segments_last: "segs \<noteq> [] \<Longrightarrow> \<exists>u. join_segments segs = u @ last segs"
proof (induction segs rule: join_segments.induct)
  case 1
  then show ?case by simp
next
  case (2 seg)
  show ?case by simp
next
  case (3 prev_seg seg segs)
  then obtain u where "join_segments (seg # segs) = u @ last (seg # segs)" by auto
  then show ?case by simp
qed

lemma join_segments_hd: "segs \<noteq> [] \<Longrightarrow> \<exists>u. join_segments segs = hd segs @ u"
  by (induction segs rule: join_segments.induct) auto

lemma flush_current_last:
  assumes "cc \<noteq> []"
  shows "flush_current M n cc \<noteq> [] \<and> (\<exists>u. snd (last (flush_current M n cc)) = u @ last cc)"
proof (cases "int (length (join_segments cc)) \<le> M - int (length (py_str n)) - 1")
  case True
  with assms join_segments_last[OF assms] show ?thesis
    by (simp add: flush_current_def Let_def)
next
  case False
  show ?thesis
  proof (cases "tl cc = []")
    case True
    with assms have "cc = [hd cc]" by (cases cc) auto
    then have "last cc = hd cc" by (metis last.simps)
    with False assms True show ?thesis
      by (simp add: flush_current_def Let_def)
  next
    case nonempty: False
    then have "last (map (\<lambda>seg. (None :: nat option, seg)) (tl cc)) = (None, last (tl cc))"
      by (simp add: last_map)
    moreover have "last (tl cc) = last cc"
      using nonempty assms by (cases cc) auto
    ultimately show ?thesis
      using False assms nonempty by (simp add: flush_current_def Let_def)
  qed
qed

lemma flush_current_hd:
  assumes "cc \<noteq> []"
  shows "flush_current M n cc \<noteq> [] \<and> (\<exists>u. hd (flush_current M n cc) = (Some n, hd cc @ u))"
  using assms join_segments_hd[OF assms] by (auto simp: flush_current_def Let_def)

lemma merge_lines_last_line:
  "merge_lines (pre @ [L1]) T M \<noteq> []
   \<and> (\<exists>u. snd (last (merge_lines (pre @ [L1]) T M)) = u @ snd L1)"
proof -
  let ?s0 = "foldl (merge_step T M) initial_merge_state pre"
  let ?s1 = "merge_step T M ?s0 L1"
  obtain n where n: "current_start_line ?s1 = Some n"
    using merge_step_fields(1)[of T M ?s0 L1] by auto
  have "merge_lines (pre @ [L1]) T M = merged ?s1 @ flush_current M n (current_code ?s1)"
    by (simp add: merge_lines_def final_flush_def n)
  moreover note flush_current_last[OF merge_step_fields(3)[of T M ?s0 L1], of M n]
  ultimately show ?thesis
    by (simp add: merge_step_fields(4))
qed

text \<open>
  The first physical line of the second part is anchored at its first line and starts
  with that line's code. The invariant of the loop: either nothing was flushed yet and
  the open segment list starts with that code, or the first entry flushed does.
\<close>

definition anchored :: "nat \<Rightarrow> pystr \<Rightarrow> merge_state \<Rightarrow> bool" where
  "anchored n c st =
     ((merged st = [] \<and> current_start_line st = Some n \<and> current_code st \<noteq> []
         \<and> hd (current_code st) = c)
      \<or> (merged st \<noteq> [] \<and> (\<exists>u. hd (merged st) = (Some n, c @ u))))"

lemma anchored_step:
  assumes "anchored n c st"
  shows "anchored n c (merge_step T M st L)"
proof -
  from assms consider
    (empty) "merged st = []" "current_start_line st = Some n" "current_code st \<noteq> []"
      "hd (current_code st) = c"
    | (flushed) u where "merged st \<noteq> []" "hd (merged st) = (Some n, c @ u)"
    by (auto simp: anchored_def)
  then show ?thesis
  proof cases
    case empty
    from flush_current_hd[OF empty(3), of M n] empty(4)
    obtain u where fl: "flush_current M n (current_code st) \<noteq> []"
      "hd (flush_current M n (current_code st)) = (Some n, c @ u)" by auto
    show ?thesis
      using empty fl by (auto simp: anchored_def merge_step_def Let_def)
  next
    case flushed
    then show ?thesis
      by (auto simp: anchored_def merge_step_def Let_def split: option.splits)
  qed
qed

lemma anchored_foldl:
  "anchored n c st \<Longrightarrow> anchored n c (foldl (merge_step T M) st ls)"
  by (induction ls arbitrary: st) (simp_all add: anchored_step)

lemma anchored_final_flush:
  assumes "anchored n c st"
  shows "final_flush M st \<noteq> [] \<and> (\<exists>u. hd (final_flush M st) = (Some n, c @ u))"
proof -
  from assms consider
    (empty) "merged st = []" "current_start_line st = Some n" "current_code st \<noteq> []"
      "hd (current_code st) = c"
    | (flushed) u where "merged st \<noteq> []" "hd (merged st) = (Some n, c @ u)"
    by (auto simp: anchored_def)
  then show ?thesis
  proof cases
    case empty
    with flush_current_hd[OF empty(3), of M n] show ?thesis
      by (simp add: final_flush_def)
  next
    case flushed
    then show ?thesis
      by (auto simp: final_flush_def split: option.splits)
  qed
qed

lemma merge_lines_first_line:
  "merge_lines (L2 # post) T M \<noteq> []
   \<and> (\<exists>u. hd (merge_lines (L2 # post) T M) = (Some (fst L2), snd L2 @ u))"
proof -
  have "anchored (fst L2) (snd L2) (merge_step T M initial_merge_state L2)"
    by (simp add: merge_step_initial anchored_def)
  then have "anchored (fst L2) (snd L2)
               (foldl (merge_step T M) (merge_step T M initial_merge_state L2) post)"
    by (rule anchored_foldl)
  then show ?thesis
    unfolding merge_lines_def foldl_Cons by (rule anchored_final_flush)
qed

text \<open>
  Claim C3. If the classifier flags the code of the line \<open>L1\<close>, then for every program
  in which \<open>L2\<close> follows \<open>L1\<close>, every target set and every length budget, the output of
  the merger is the output for the lines up to \<open>L1\<close> followed by the output for the
  lines from \<open>L2\<close> on: the first part ends with a physical line that ends with the code of
  \<open>L1\<close>, the second starts with a physical line anchored at \<open>L2\<close> that starts with the
  code of \<open>L2\<close>, so the two codes are never on one physical line. The classifier is
  applied to the code of the line \<open>L1\<close> as the merger receives it, never to merged text.
\<close>

theorem merge_lines_never_after_control_flow:
  assumes "ends_with_control_flow (snd L1)"
  shows "merge_lines (pre @ L1 # L2 # post) T M
           = merge_lines (pre @ [L1]) T M @ merge_lines (L2 # post) T M
         \<and> merge_lines (pre @ [L1]) T M \<noteq> []
         \<and> (\<exists>u. snd (last (merge_lines (pre @ [L1]) T M)) = u @ snd L1)
         \<and> merge_lines (L2 # post) T M \<noteq> []
         \<and> (\<exists>u. hd (merge_lines (L2 # post) T M) = (Some (fst L2), snd L2 @ u))"
  using merge_lines_split[OF assms, of pre L2 post T M]
    merge_lines_last_line[of pre L1 T M] merge_lines_first_line[of L2 post T M]
  by blast

text \<open>
  The theorem on the two examples of the specification, as the merger receives them
  (compacted): \<^verbatim>\<open>10 GOTO 100\<close> before \<^verbatim>\<open>20 PRINT "X"\<close>, and \<^verbatim>\<open>10 IF A=1 THEN PRINT "Y"\<close>
  before \<^verbatim>\<open>20 PRINT "Z"\<close>, with no targets and the default budget of 255.
\<close>

lemmas merge_eval =
  merge_lines_def merge_step_def initial_merge_state_def final_flush_def flush_current_def
  Let_def py_str.simps

lemmas classifier_eval =
  ends_with_control_flow_def py_rstrip_def py_strip_def py_isspace_def py_upper_def
  upper_char_def py_isdigit_def startswith_def S_def Let_def

theorem merge_lines_never_after_control_flow_witness:
  \<open>merge_lines [(10, S ''GOTO100''), (20, S ''PRINT"X"'')] {} 255
     = [(Some 10, S ''GOTO100''), (Some 20, S ''PRINT"X"'')]
   \<and> merge_lines [(10, S ''IFA=1THENPRINT"Y"''), (20, S ''PRINT"Z"'')] {} 255
     = [(Some 10, S ''IFA=1THENPRINT"Y"''), (Some 20, S ''PRINT"Z"'')]\<close>
proof -
  have goto: "ends_with_control_flow (snd (10 :: nat, S ''GOTO100''))"
    by (simp add: classifier_eval)
  have ifthen: \<open>ends_with_control_flow (snd (10 :: nat, S ''IFA=1THENPRINT"Y"''))\<close>
    by (simp add: classifier_eval)
  have single: "\<And>n c. n < 100 \<Longrightarrow> length c < 200 \<Longrightarrow> merge_lines [(n, c)] {} 255 = [(Some n, c)]"
    by (simp add: merge_eval)
  from merge_lines_never_after_control_flow[OF goto, of "[]" \<open>(20, S ''PRINT"X"'')\<close> "[]" "{}" 255]
  have "merge_lines [(10, S ''GOTO100''), (20, S ''PRINT\"X\"'')] {} 255
        = merge_lines [(10, S ''GOTO100'')] {} 255 @ merge_lines [(20, S ''PRINT\"X\"'')] {} 255"
    by simp
  moreover
  from merge_lines_never_after_control_flow[OF ifthen, of "[]" \<open>(20, S ''PRINT"Z"'')\<close> "[]" "{}" 255]
  have "merge_lines [(10, S ''IFA=1THENPRINT\"Y\"''), (20, S ''PRINT\"Z\"'')] {} 255
        = merge_lines [(10, S ''IFA=1THENPRINT\"Y\"'')] {} 255
          @ merge_lines [(20, S ''PRINT\"Z\"'')] {} 255"
    by simp
  ultimately show ?thesis
    by (simp add: single S_def)
qed

subsection \<open>Operands of jump keywords under \<^verbatim>\<open>update_line_references\<close> (claim C9)\<close>

text \<open>
  A line as the reference fixup reads it: stretches of text that are copied, and the
  digit runs after a jump keyword, which are the numeric operands.
\<close>

datatype chunk = Copied pystr | Operand pystr

function operand_chunks :: "pystr \<Rightarrow> chunk list \<times> pystr" where
  "operand_chunks [] = ([], [])"
| "operand_chunks (c # rest) =
     (if py_isdigit c
      then (let (chunks, rest') = operand_chunks (dropWhile py_isdigit rest)
            in (Operand (c # takeWhile py_isdigit rest) # chunks, rest'))
      else if c = COMMA \<or> c = SPACE \<or> c = TAB
      then (let (chunks, rest') = operand_chunks rest in (Copied [c] # chunks, rest'))
      else ([], c # rest))"
  by pat_completeness auto
termination
  by (relation "measure length") (auto simp: less_Suc_eq_le length_dropWhile_le)

declare operand_chunks.simps [simp del]

lemma operand_chunks_length: "length (snd (operand_chunks s)) \<le> length s"
proof (induction s rule: operand_chunks.induct)
  case 1
  show ?case by (simp add: operand_chunks.simps)
next
  case (2 c rest)
  have "length (dropWhile py_isdigit rest) \<le> length rest"
    by (rule length_dropWhile_le)
  with 2 show ?case
    by (auto simp: operand_chunks.simps(2)[of c rest] split: prod.splits)
qed

function line_chunks :: "pystr \<Rightarrow> bool \<Rightarrow> chunk list" where
  "line_chunks [] in_string = []"
| "line_chunks (c # rest) in_string =
     (if c = DQUOTE then Copied [c] # line_chunks rest (\<not> in_string)
      else if in_string then Copied [c] # line_chunks rest in_string
      else (case first_keyword (py_upper (c # rest)) of
              Some keyword \<Rightarrow>
                (let (chunks, rest') = operand_chunks (drop (length keyword) (c # rest))
                 in Copied (take (length keyword) (c # rest)) # chunks @ line_chunks rest' in_string)
            | None \<Rightarrow> Copied [c] # line_chunks rest in_string))"
  by pat_completeness auto
termination
proof (relation "measure (\<lambda>(code, in_string). length code)", goal_cases)
  case (5 c rest in_string keyword x chunks rest')
  have "length rest' \<le> length (drop (length keyword) (c # rest))"
    using operand_chunks_length[of "drop (length keyword) (c # rest)"] 5(5)[symmetric] 5(4)
    by simp
  moreover have "4 \<le> length keyword"
    using 5(3) by (rule first_keyword_length)
  ultimately show ?case by simp
qed auto

declare line_chunks.simps [simp del]

text \<open>The text of a chunk in the source line, and what the fixup writes for it.\<close>

fun chunk_source :: "chunk \<Rightarrow> pystr" where
  "chunk_source (Copied t) = t"
| "chunk_source (Operand ds) = ds"

fun chunk_written :: "(nat \<rightharpoonup> nat) \<Rightarrow> chunk \<Rightarrow> pystr" where
  "chunk_written line_map (Copied t) = t"
| "chunk_written line_map (Operand ds) =
     (case line_map (int_of_digits ds) of
        Some new_line \<Rightarrow> py_str new_line
      | None \<Rightarrow> py_str (int_of_digits ds))"

text \<open>
  The conversions that the fixup makes for a chunk succeed: \<^verbatim>\<open>int\<close> of an operand and
  \<^verbatim>\<open>str\<close> of the number written for it stay within the limit of 4300 digits.
\<close>

fun chunk_converts :: "(nat \<rightharpoonup> nat) \<Rightarrow> chunk \<Rightarrow> bool" where
  "chunk_converts line_map (Copied t) = True"
| "chunk_converts line_map (Operand ds) =
     (length ds \<le> max_str_digits
      \<and> length (chunk_written line_map (Operand ds)) \<le> max_str_digits)"

text \<open>A run of digits with its superfluous leading zeros removed.\<close>

definition canonical_digits :: "pystr \<Rightarrow> pystr" where
  "canonical_digits ds =
     (let t = dropWhile (\<lambda>d. d = 48) ds in if t = [] then [48] else t)"


lemma operand_chunks_digit:
  assumes "py_isdigit c"
  shows "operand_chunks (c # rest)
         = (Operand (c # takeWhile py_isdigit rest) # fst (operand_chunks (dropWhile py_isdigit rest)),
            snd (operand_chunks (dropWhile py_isdigit rest)))"
  using assms by (simp add: operand_chunks.simps(2)[of c rest] case_prod_beta)

lemma operand_chunks_separator:
  assumes "\<not> py_isdigit c" and "c = COMMA \<or> c = SPACE \<or> c = TAB"
  shows "operand_chunks (c # rest)
         = (Copied [c] # fst (operand_chunks rest), snd (operand_chunks rest))"
  using assms by (simp add: operand_chunks.simps(2)[of c rest] case_prod_beta)

lemma operand_chunks_other:
  assumes "\<not> py_isdigit c" and "\<not> (c = COMMA \<or> c = SPACE \<or> c = TAB)"
  shows "operand_chunks (c # rest) = ([], c # rest)"
  using assms by (simp add: operand_chunks.simps(2)[of c rest])

lemma chunk_written_operand:
  "chunk_written m (Operand ds) = py_str (dict_get m (int_of_digits ds) (int_of_digits ds))"
  by (simp add: dict_get_def split: option.split)

lemma rewrite_numbers_digit:
  assumes "py_isdigit c"
  shows "rewrite_numbers m (c # rest) result
         = (if chunk_converts m (Operand (c # takeWhile py_isdigit rest))
            then rewrite_numbers m (dropWhile py_isdigit rest)
                   (result @ chunk_written m (Operand (c # takeWhile py_isdigit rest)))
            else Inl ValueError)"
  using assms
  by (simp add: rewrite_numbers.simps(2)[of m c rest result] py_int_digits_def
      py_str_checked_def chunk_written_operand del: chunk_written.simps)

lemma rewrite_numbers_separator:
  assumes "\<not> py_isdigit c" and "c = COMMA \<or> c = SPACE \<or> c = TAB"
  shows "rewrite_numbers m (c # rest) result = rewrite_numbers m rest (result @ [c])"
  using assms by (simp add: rewrite_numbers.simps(2)[of m c rest result])

lemma rewrite_numbers_other:
  assumes "\<not> py_isdigit c" and "\<not> (c = COMMA \<or> c = SPACE \<or> c = TAB)"
  shows "rewrite_numbers m (c # rest) result = Inr (result, c # rest)"
  using assms by (simp add: rewrite_numbers.simps(2)[of m c rest result])

text \<open>
  The loop after a keyword raises exactly when a conversion fails; otherwise it appends
  what is written for each chunk.
\<close>

lemma rewrite_numbers_chunks:
  "rewrite_numbers m s result
   = (if list_all (chunk_converts m) (fst (operand_chunks s))
      then Inr (result @ concat (map (chunk_written m) (fst (operand_chunks s))),
                snd (operand_chunks s))
      else Inl ValueError)"
proof (induction s arbitrary: result rule: operand_chunks.induct)
  case 1
  show ?case by (simp add: operand_chunks.simps(1) rewrite_numbers.simps(1))
next
  case (2 c rest)
  consider (digit) "py_isdigit c"
    | (sep) "\<not> py_isdigit c" "c = COMMA \<or> c = SPACE \<or> c = TAB"
    | (other) "\<not> py_isdigit c" "\<not> (c = COMMA \<or> c = SPACE \<or> c = TAB)"
    by blast
  then show ?case
  proof cases
    case digit
    show ?thesis
      unfolding operand_chunks_digit[OF digit] rewrite_numbers_digit[OF digit] 2(1)[OF digit]
      by (simp del: chunk_written.simps chunk_converts.simps)
  next
    case sep
    show ?thesis
      unfolding operand_chunks_separator[OF sep] rewrite_numbers_separator[OF sep] 2(2)[OF sep]
      by simp
  next
    case other
    show ?thesis
      unfolding operand_chunks_other[OF other] rewrite_numbers_other[OF other] by simp
  qed
qed

lemma operand_chunks_source:
  "concat (map chunk_source (fst (operand_chunks s))) @ snd (operand_chunks s) = s"
proof (induction s rule: operand_chunks.induct)
  case 1
  show ?case by (simp add: operand_chunks.simps(1))
next
  case (2 c rest)
  consider (digit) "py_isdigit c"
    | (sep) "\<not> py_isdigit c" "c = COMMA \<or> c = SPACE \<or> c = TAB"
    | (other) "\<not> py_isdigit c" "\<not> (c = COMMA \<or> c = SPACE \<or> c = TAB)"
    by blast
  then show ?case
  proof cases
    case digit
    have "concat (map chunk_source (fst (operand_chunks (c # rest)))) @ snd (operand_chunks (c # rest))
          = c # takeWhile py_isdigit rest @ dropWhile py_isdigit rest"
      unfolding operand_chunks_digit[OF digit] using 2(1)[OF digit] by simp
    then show ?thesis by simp
  next
    case sep
    show ?thesis
      unfolding operand_chunks_separator[OF sep] using 2(2)[OF sep] by simp
  next
    case other
    show ?thesis
      unfolding operand_chunks_other[OF other] by simp
  qed
qed

lemma operand_chunks_digits:
  "Operand ds \<in> set (fst (operand_chunks s)) \<Longrightarrow> ds \<noteq> [] \<and> (\<forall>d\<in>set ds. py_isdigit d)"
proof (induction s rule: operand_chunks.induct)
  case 1
  then show ?case by (simp add: operand_chunks.simps(1))
next
  case (2 c rest)
  consider (digit) "py_isdigit c"
    | (sep) "\<not> py_isdigit c" "c = COMMA \<or> c = SPACE \<or> c = TAB"
    | (other) "\<not> py_isdigit c" "\<not> (c = COMMA \<or> c = SPACE \<or> c = TAB)"
    by blast
  then show ?case
  proof cases
    case digit
    from 2(3) have "ds = c # takeWhile py_isdigit rest
        \<or> Operand ds \<in> set (fst (operand_chunks (dropWhile py_isdigit rest)))"
      unfolding operand_chunks_digit[OF digit] by simp
    then show ?thesis
    proof
      assume "ds = c # takeWhile py_isdigit rest"
      then show ?thesis using digit by (auto dest: set_takeWhileD)
    next
      assume "Operand ds \<in> set (fst (operand_chunks (dropWhile py_isdigit rest)))"
      then show ?thesis using 2(1)[OF digit] by simp
    qed
  next
    case sep
    from 2(3) have "Operand ds \<in> set (fst (operand_chunks rest))"
      unfolding operand_chunks_separator[OF sep] by simp
    then show ?thesis using 2(2)[OF sep] by simp
  next
    case other
    from 2(3) show ?thesis
      unfolding operand_chunks_other[OF other] by simp
  qed
qed

text \<open>The same for the whole line.\<close>

lemma update_loop_chunks:
  "update_loop m code in_string result
   = (if list_all (chunk_converts m) (line_chunks code in_string)
      then Inr (result @ concat (map (chunk_written m) (line_chunks code in_string)))
      else Inl ValueError)"
proof (induction code in_string arbitrary: result rule: line_chunks.induct)
  case (1 in_string)
  show ?case by (simp add: update_loop.simps line_chunks.simps)
next
  case (2 c rest in_string)
  show ?case
  proof (cases "c = DQUOTE \<or> in_string")
    case True
    with 2(1,2) show ?thesis
      by (auto simp: update_loop.simps(2)[of m c rest] line_chunks.simps(2)[of c rest])
  next
    case False
    show ?thesis
    proof (cases "first_keyword (py_upper (c # rest))")
      case None
      with False 2(3)[OF _ _ None] show ?thesis
        by (simp add: update_loop.simps(2)[of m c rest] line_chunks.simps(2)[of c rest])
    next
      case (Some keyword)
      obtain chunks rest' where oc:
        "operand_chunks (drop (length keyword) (c # rest)) = (chunks, rest')"
        by (cases "operand_chunks (drop (length keyword) (c # rest))")
      have IH: "\<And>result. update_loop m rest' in_string result
                = (if list_all (chunk_converts m) (line_chunks rest' in_string)
                   then Inr (result @ concat (map (chunk_written m) (line_chunks rest' in_string)))
                   else Inl ValueError)"
        using 2(4)[OF _ _ Some oc[symmetric] refl] False by simp
      have rw: "\<And>result. rewrite_numbers m (drop (length keyword) (c # rest)) result
                = (if list_all (chunk_converts m) chunks
                   then Inr (result @ concat (map (chunk_written m) chunks), rest')
                   else Inl ValueError)"
        by (simp add: rewrite_numbers_chunks oc)
      show ?thesis
        using False Some oc rw IH
        by (simp add: update_loop.simps(2)[of m c rest] line_chunks.simps(2)[of c rest])
    qed
  qed
qed

lemma line_chunks_source:
  "concat (map chunk_source (line_chunks code in_string)) = code"
proof (induction code in_string rule: line_chunks.induct)
  case (1 in_string)
  show ?case by (simp add: line_chunks.simps)
next
  case (2 c rest in_string)
  show ?case
  proof (cases "c = DQUOTE \<or> in_string")
    case True
    with 2(1,2) show ?thesis
      by (auto simp: line_chunks.simps(2)[of c rest])
  next
    case False
    show ?thesis
    proof (cases "first_keyword (py_upper (c # rest))")
      case None
      with False 2(3)[OF _ _ None] show ?thesis
        by (simp add: line_chunks.simps(2)[of c rest])
    next
      case (Some keyword)
      obtain chunks rest' where oc:
        "operand_chunks (drop (length keyword) (c # rest)) = (chunks, rest')"
        by (cases "operand_chunks (drop (length keyword) (c # rest))")
      have IH: "concat (map chunk_source (line_chunks rest' in_string)) = rest'"
        using 2(4)[OF _ _ Some oc[symmetric] refl] False by simp
      have src: "concat (map chunk_source chunks) @ rest' = drop (length keyword) (c # rest)"
        using operand_chunks_source[of "drop (length keyword) (c # rest)"] by (simp add: oc)
      have "concat (map chunk_source (line_chunks (c # rest) in_string))
            = take (length keyword) (c # rest) @ concat (map chunk_source chunks) @ rest'"
        using False Some oc IH by (simp add: line_chunks.simps(2)[of c rest])
      also have "\<dots> = c # rest"
        unfolding src by (rule append_take_drop_id)
      finally show ?thesis .
    qed
  qed
qed

lemma line_chunks_digits:
  "Operand ds \<in> set (line_chunks code in_string) \<Longrightarrow> ds \<noteq> [] \<and> (\<forall>d\<in>set ds. py_isdigit d)"
proof (induction code in_string rule: line_chunks.induct)
  case (1 in_string)
  then show ?case by (simp add: line_chunks.simps)
next
  case (2 c rest in_string)
  show ?case
  proof (cases "c = DQUOTE \<or> in_string")
    case True
    with 2(1,2,5) show ?thesis
      by (auto simp: line_chunks.simps(2)[of c rest] split: if_splits)
  next
    case False
    show ?thesis
    proof (cases "first_keyword (py_upper (c # rest))")
      case None
      with False 2(3)[OF _ _ None] 2(5) show ?thesis
        by (simp add: line_chunks.simps(2)[of c rest])
    next
      case (Some keyword)
      obtain chunks rest' where oc:
        "operand_chunks (drop (length keyword) (c # rest)) = (chunks, rest')"
        by (cases "operand_chunks (drop (length keyword) (c # rest))")
      from 2(5) False Some oc
      have "Operand ds \<in> set chunks \<or> Operand ds \<in> set (line_chunks rest' in_string)"
        by (simp add: line_chunks.simps(2)[of c rest])
      then show ?thesis
      proof
        assume "Operand ds \<in> set chunks"
        then show ?thesis
          using operand_chunks_digits[of ds "drop (length keyword) (c # rest)"] by (simp add: oc)
      next
        assume "Operand ds \<in> set (line_chunks rest' in_string)"
        then show ?thesis
          using 2(4)[OF _ _ Some oc[symmetric] refl] False by simp
      qed
    qed
  qed
qed


text \<open>\<^verbatim>\<open>str(int(ds))\<close> on a run of digits is the run without its leading zeros.\<close>

lemma int_of_digits_snoc: "int_of_digits (ds @ [d]) = 10 * int_of_digits ds + (d - 48)"
  by (simp add: int_of_digits_def)

lemma py_str_step:
  assumes "k < 10"
  shows "py_str (10 * n + k) = (if n = 0 then [48 + k] else py_str n @ [48 + k])"
proof (cases "n = 0")
  case True
  with assms show ?thesis by (simp add: py_str.simps[of k])
next
  case False
  with assms have "\<not> 10 * n + k < 10" "(10 * n + k) div 10 = n" "(10 * n + k) mod 10 = k"
    by simp_all
  with False show ?thesis by (simp add: py_str.simps[of "10 * n + k"])
qed

lemma int_of_digits_zero:
  assumes "\<forall>d\<in>set ds. py_isdigit d"
  shows "int_of_digits ds = 0 \<longleftrightarrow> (\<forall>d\<in>set ds. d = 48)"
  using assms
proof (induction ds rule: rev_induct)
  case Nil
  show ?case by (simp add: int_of_digits_def)
next
  case (snoc d ds)
  then have "48 \<le> d" by (simp add: py_isdigit_def)
  then have "d - 48 = 0 \<longleftrightarrow> d = 48" by arith
  with snoc show ?case by (auto simp: int_of_digits_snoc)
qed

lemma py_str_int_of_digits:
  assumes "ds \<noteq> []" and "\<forall>d\<in>set ds. py_isdigit d"
  shows "py_str (int_of_digits ds) = canonical_digits ds"
  using assms
proof (induction ds rule: rev_induct)
  case Nil
  then show ?case by simp
next
  case (snoc d ds)
  from snoc.prems have d: "48 \<le> d" "d \<le> 57" and ds: "\<forall>x\<in>set ds. py_isdigit x"
    by (simp_all add: py_isdigit_def)
  from d have k: "d - 48 < 10" and restore: "48 + (d - 48) = d" by arith+
  have step: "py_str (int_of_digits (ds @ [d]))
      = (if int_of_digits ds = 0 then [d] else py_str (int_of_digits ds) @ [d])"
    unfolding int_of_digits_snoc py_str_step[OF k] restore ..
  show ?case
  proof (cases "int_of_digits ds = 0")
    case True
    then have zeros: "\<forall>x\<in>set ds. x = 48" using int_of_digits_zero[OF ds] by simp
    then have "dropWhile (\<lambda>x. x = 48) (ds @ [d]) = dropWhile (\<lambda>x. x = 48) [d]"
      by (simp add: dropWhile_append)
    then have "canonical_digits (ds @ [d]) = [d]"
      by (simp add: canonical_digits_def)
    with True step show ?thesis by simp
  next
    case False
    then have nz: "\<not> (\<forall>x\<in>set ds. x = 48)" using int_of_digits_zero[OF ds] by simp
    then have "ds \<noteq> []" by auto
    then have IH: "py_str (int_of_digits ds) = canonical_digits ds"
      using snoc.IH ds by simp
    from nz have dw: "dropWhile (\<lambda>x. x = 48) (ds @ [d]) = dropWhile (\<lambda>x. x = 48) ds @ [d]"
      by (auto simp: dropWhile_append)
    from nz have ne: "dropWhile (\<lambda>x. x = 48) ds \<noteq> []"
      by (simp add: dropWhile_eq_Nil_conv)
    have "canonical_digits (ds @ [d]) = canonical_digits ds @ [d]"
      unfolding canonical_digits_def Let_def dw using ne by auto
    with False step IH show ?thesis by simp
  qed
qed

lemma int_of_digits_leading_zeros:
  "int_of_digits (dropWhile (\<lambda>d. d = 48) ds) = int_of_digits ds"
proof (induction ds)
  case Nil
  show ?case by simp
next
  case (Cons d ds)
  have "\<And>a. foldl (\<lambda>acc d. 10 * acc + (d - 48)) a (48 # ds)
            = foldl (\<lambda>acc d. 10 * acc + (d - 48)) (10 * a) ds"
    by simp
  then have "int_of_digits (48 # ds) = int_of_digits ds"
    by (simp add: int_of_digits_def)
  with Cons show ?case by simp
qed

lemma int_of_digits_canonical: "int_of_digits (canonical_digits ds) = int_of_digits ds"
proof (cases "dropWhile (\<lambda>d. d = 48) ds = []")
  case True
  have "int_of_digits ds = int_of_digits []"
    unfolding int_of_digits_leading_zeros[of ds, symmetric] True ..
  with True show ?thesis by (simp add: canonical_digits_def int_of_digits_def)
next
  case False
  then have "canonical_digits ds = dropWhile (\<lambda>d. d = 48) ds"
    unfolding canonical_digits_def Let_def by auto
  then show ?thesis by (simp only: int_of_digits_leading_zeros)
qed

lemma canonical_digits_length: "ds \<noteq> [] \<Longrightarrow> length (canonical_digits ds) \<le> length ds"
  by (cases ds) (auto simp: canonical_digits_def Let_def intro: le_SucI length_dropWhile_le)

lemma chunk_written_dangling:
  assumes "Operand ds \<in> set (line_chunks code in_string)" and "m (int_of_digits ds) = None"
  shows "chunk_written m (Operand ds) = canonical_digits ds"
  using line_chunks_digits[OF assms(1)] assms(2) by (simp add: py_str_int_of_digits)

text \<open>
  A dangling operand adds no conversion failure of its own: \<^verbatim>\<open>str\<close> succeeds whenever
  \<^verbatim>\<open>int\<close> did.
\<close>

lemma chunk_converts_dangling:
  assumes "Operand ds \<in> set (line_chunks code in_string)" and "m (int_of_digits ds) = None"
  shows "chunk_converts m (Operand ds) = (length ds \<le> max_str_digits)"
proof -
  have "ds \<noteq> []" using line_chunks_digits[OF assms(1)] by simp
  then have "length (canonical_digits ds) \<le> length ds" by (rule canonical_digits_length)
  then show ?thesis
    unfolding chunk_converts.simps chunk_written_dangling[of ds code in_string m, OF assms]
    by auto
qed

lemma update_line_references_chunks:
  "update_line_references code m
   = (if list_all (chunk_converts m) (line_chunks code False)
      then Inr (concat (map (chunk_written m) (line_chunks code False)))
      else Inl ValueError)"
  unfolding update_line_references_def update_loop_chunks by simp

lemma update_line_references_unchanged:
  assumes "\<forall>ds. Operand ds \<in> set (line_chunks code False)
             \<longrightarrow> length ds \<le> max_str_digits \<and> m (int_of_digits ds) = None
                 \<and> canonical_digits ds = ds"
  shows "update_line_references code m = Inr code"
proof -
  have "map (chunk_written m) (line_chunks code False) = map chunk_source (line_chunks code False)"
  proof (rule map_cong [OF refl])
    fix ch
    assume ch: "ch \<in> set (line_chunks code False)"
    show "chunk_written m ch = chunk_source ch"
    proof (cases ch)
      case (Copied t)
      then show ?thesis by simp
    next
      case (Operand ds)
      with ch assms have "m (int_of_digits ds) = None" "canonical_digits ds = ds" by auto
      with chunk_written_dangling[of ds code False m] ch Operand show ?thesis by simp
    qed
  qed
  then have "concat (map (chunk_written m) (line_chunks code False))
             = concat (map chunk_source (line_chunks code False))"
    by (rule arg_cong)
  then have written: "concat (map (chunk_written m) (line_chunks code False)) = code"
    unfolding line_chunks_source .
  have "list_all (chunk_converts m) (line_chunks code False)"
    unfolding list_all_iff
  proof
    fix ch
    assume ch: "ch \<in> set (line_chunks code False)"
    show "chunk_converts m ch"
    proof (cases ch)
      case (Copied t)
      then show ?thesis by simp
    next
      case (Operand ds)
      with ch assms have "length ds \<le> max_str_digits" "m (int_of_digits ds) = None" by auto
      with chunk_converts_dangling[of ds code False m] ch Operand show ?thesis by simp
    qed
  qed
  then show ?thesis
    unfolding update_line_references_chunks written by simp
qed

text \<open>
  Claim C9 (amended). The text of a line is the concatenation of its chunks. On an ASCII
  line (where the model of \<^verbatim>\<open>isdigit\<close> and \<^verbatim>\<open>upper\<close> is exact) the fixup returns the
  concatenation of what is written for each chunk, copied text as it is and for a numeric
  operand the decimal of the new number or, when its value is not a key of \<open>line_map\<close> (a
  dangling reference), the decimal of its own value, provided every conversion stays
  within the limit of 4300 digits; otherwise it raises \<^verbatim>\<open>ValueError\<close>. A dangling
  operand keeps its value, and its text but for superfluous leading zeros (\<^verbatim>\<open>GOTO 007\<close>
  becomes \<^verbatim>\<open>GOTO 7\<close>), and its conversions succeed exactly when it has at most 4300
  digits: being dangling causes no error, a run of more than 4300 digits does, dangling
  or not. An ASCII line all of whose operands are dangling, have at most 4300 digits and
  no superfluous leading zeros is returned unchanged.
\<close>

theorem update_line_references_dangling:
  "((\<forall>c\<in>set code. c < 128) \<and> list_all (chunk_converts line_map) (line_chunks code False)
      \<longrightarrow> update_line_references code line_map
          = Inr (concat (map (chunk_written line_map) (line_chunks code False))))
   \<and> ((\<forall>c\<in>set code. c < 128) \<and> \<not> list_all (chunk_converts line_map) (line_chunks code False)
      \<longrightarrow> update_line_references code line_map = Inl ValueError)
   \<and> concat (map chunk_source (line_chunks code False)) = code
   \<and> (\<forall>ds. Operand ds \<in> set (line_chunks code False) \<and> line_map (int_of_digits ds) = None
         \<longrightarrow> chunk_written line_map (Operand ds) = canonical_digits ds
             \<and> int_of_digits (canonical_digits ds) = int_of_digits ds
             \<and> chunk_converts line_map (Operand ds) = (length ds \<le> max_str_digits))
   \<and> ((\<forall>c\<in>set code. c < 128)
        \<and> (\<forall>ds. Operand ds \<in> set (line_chunks code False)
              \<longrightarrow> length ds \<le> max_str_digits \<and> line_map (int_of_digits ds) = None
                  \<and> canonical_digits ds = ds)
        \<longrightarrow> update_line_references code line_map = Inr code)"
proof -
  let ?chunks = "line_chunks code False"
  have returns: "(\<forall>c\<in>set code. c < 128) \<and> list_all (chunk_converts line_map) ?chunks
      \<longrightarrow> update_line_references code line_map
          = Inr (concat (map (chunk_written line_map) ?chunks))"
    unfolding update_line_references_chunks by simp
  have raises: "(\<forall>c\<in>set code. c < 128) \<and> \<not> list_all (chunk_converts line_map) ?chunks
      \<longrightarrow> update_line_references code line_map = Inl ValueError"
    unfolding update_line_references_chunks by simp
  have source: "concat (map chunk_source ?chunks) = code"
    by (rule line_chunks_source)
  have dangling: "\<forall>ds. Operand ds \<in> set ?chunks \<and> line_map (int_of_digits ds) = None
         \<longrightarrow> chunk_written line_map (Operand ds) = canonical_digits ds
             \<and> int_of_digits (canonical_digits ds) = int_of_digits ds
             \<and> chunk_converts line_map (Operand ds) = (length ds \<le> max_str_digits)"
    using chunk_written_dangling[of _ code False line_map] int_of_digits_canonical
      chunk_converts_dangling[of _ code False line_map]
    by blast
  have unchanged: "(\<forall>c\<in>set code. c < 128)
        \<and> (\<forall>ds. Operand ds \<in> set ?chunks
              \<longrightarrow> length ds \<le> max_str_digits \<and> line_map (int_of_digits ds) = None
                  \<and> canonical_digits ds = ds)
        \<longrightarrow> update_line_references code line_map = Inr code"
    using update_line_references_unchanged[of code line_map] by blast
  show ?thesis
    by (rule conjI[OF returns conjI[OF raises conjI[OF source conjI[OF dangling unchanged]]]])
qed

lemmas chunk_eval =
  line_chunks.simps operand_chunks.simps first_keyword_def jump_keywords_def startswith_def
  py_upper_def upper_char_def py_isdigit_def S_def Let_def

text \<open>A keyword followed by nothing but a run of digits is one operand.\<close>

lemma operand_chunks_all_digits:
  assumes "\<forall>d\<in>set ds. py_isdigit d"
  shows "operand_chunks (49 # ds) = ([Operand (49 # ds)], [])"
proof -
  have digit: "py_isdigit 49"
    by (simp add: py_isdigit_def)
  have run: "takeWhile py_isdigit ds = ds" "dropWhile py_isdigit ds = []"
    using assms by simp_all
  show ?thesis
    unfolding operand_chunks_digit[OF digit] run operand_chunks.simps(1) by simp
qed

lemma line_chunks_goto_digits:
  assumes "\<forall>d\<in>set ds. py_isdigit d"
  shows "line_chunks (S ''GOTO'' @ 49 # ds) False = [Copied (S ''GOTO''), Operand (49 # ds)]"
  by (simp add: line_chunks.simps first_keyword_def jump_keywords_def startswith_def
      py_upper_def upper_char_def S_def operand_chunks_all_digits[OF assms])

text \<open>
  The theorem on \<^verbatim>\<open>ON X GOTO 10, 20,30:GOSUB 007\<close> with lines 10 and 30 renumbered to 1
  and 3 (20 and 7 are dangling), on a line whose operands are all dangling, and on
  \<^verbatim>\<open>GOTO\<close> followed by 4301 digits \<^verbatim>\<open>1\<close>.
\<close>

theorem update_line_references_dangling_witness:
  "update_line_references (S ''ON X GOTO 10, 20,30:GOSUB 007'') [10 \<mapsto> 1, 30 \<mapsto> 3]
     = Inr (S ''ON X GOTO 1, 20,3:GOSUB 7'')
   \<and> update_line_references (S ''IF A THEN 20 ELSE 40'') [10 \<mapsto> 1]
     = Inr (S ''IF A THEN 20 ELSE 40'')
   \<and> update_line_references (S ''GOTO'' @ replicate 4301 49) Map.empty = Inl ValueError"
proof -
  let ?c1 = "S ''ON X GOTO 10, 20,30:GOSUB 007''" and ?m1 = "[10 \<mapsto> 1, 30 \<mapsto> (3::nat)]"
  let ?c2 = "S ''IF A THEN 20 ELSE 40''" and ?m2 = "[10 \<mapsto> (1::nat)]"
  let ?c3 = "S ''GOTO'' @ replicate 4301 49" and ?m3 = "Map.empty :: nat \<rightharpoonup> nat"
  have chunks1: "line_chunks ?c1 False
      = [Copied (S ''O''), Copied (S ''N''), Copied (S '' ''), Copied (S ''X''), Copied (S '' ''),
         Copied (S ''GOTO''), Copied (S '' ''), Operand (S ''10''), Copied (S '',''),
         Copied (S '' ''), Operand (S ''20''), Copied (S '',''), Operand (S ''30''),
         Copied (S '':''), Copied (S ''GOSUB''), Copied (S '' ''), Operand (S ''007'')]"
    by (simp add: chunk_eval)
  have chunks2: "line_chunks ?c2 False
      = [Copied (S ''I''), Copied (S ''F''), Copied (S '' ''), Copied (S ''A''), Copied (S '' ''),
         Copied (S ''THEN''), Copied (S '' ''), Operand (S ''20''), Copied (S '' ''),
         Copied (S ''ELSE''), Copied (S '' ''), Operand (S ''40'')]"
    by (simp add: chunk_eval)
  have c3: "?c3 = S ''GOTO'' @ 49 # replicate 4300 49"
    using replicate_Suc[of 4300 "49::nat"] by simp
  have chunks3: "line_chunks ?c3 False = [Copied (S ''GOTO''), Operand (49 # replicate 4300 49)]"
    unfolding c3 by (rule line_chunks_goto_digits) (simp add: py_isdigit_def)
  have ascii1: "\<forall>c\<in>set ?c1. c < 128" by (simp add: S_def)
  have ascii2: "\<forall>c\<in>set ?c2. c < 128" by (simp add: S_def)
  have ascii3: "\<forall>c\<in>set ?c3. c < 128" by (simp add: S_def)
  have converts1: "list_all (chunk_converts ?m1) (line_chunks ?c1 False)"
    unfolding chunks1 by (simp add: S_def int_of_digits_def py_str.simps max_str_digits_def)
  have written1: "concat (map (chunk_written ?m1) (line_chunks ?c1 False))
      = S ''ON X GOTO 1, 20,3:GOSUB 7''"
    unfolding chunks1 by (simp add: S_def int_of_digits_def py_str.simps)
  have dangling2: "\<forall>ds. Operand ds \<in> set (line_chunks ?c2 False)
      \<longrightarrow> length ds \<le> max_str_digits \<and> ?m2 (int_of_digits ds) = None \<and> canonical_digits ds = ds"
    unfolding chunks2
    by (auto simp: S_def int_of_digits_def canonical_digits_def max_str_digits_def)
  have fails3: "\<not> list_all (chunk_converts ?m3) (line_chunks ?c3 False)"
    unfolding chunks3 by (simp add: max_str_digits_def)
  note inst1 = update_line_references_dangling[of ?c1 ?m1]
  note inst2 = update_line_references_dangling[of ?c2 ?m2]
  note inst3 = update_line_references_dangling[of ?c3 ?m3]
  from inst1 ascii1 converts1 have "update_line_references ?c1 ?m1
      = Inr (concat (map (chunk_written ?m1) (line_chunks ?c1 False)))"
    by blast
  then have r1: "update_line_references ?c1 ?m1 = Inr (S ''ON X GOTO 1, 20,3:GOSUB 7'')"
    unfolding written1 .
  from inst2 ascii2 dangling2 have r2: "update_line_references ?c2 ?m2 = Inr ?c2"
    by blast
  from inst3 ascii3 fails3 have r3: "update_line_references ?c3 ?m3 = Inl ValueError"
    by blast
  from r1 r2 r3 show ?thesis by (intro conjI)
qed

text \<open>
  The claim as stated fails on an operand with leading zeros: it is dangling, and its
  text changes.
\<close>

theorem update_line_references_leading_zeros_counterexample:
  "update_line_references (S ''GOTO 007'') Map.empty = Inr (S ''GOTO 7'')
   \<and> S ''GOTO 7'' \<noteq> S ''GOTO 007''"
  by (simp add: update_line_references_def update_loop.simps rewrite_numbers.simps
      first_keyword_def jump_keywords_def startswith_def py_upper_def upper_char_def
      py_isdigit_def py_int_digits_def py_str_checked_def max_str_digits_def dict_get_def
      int_of_digits_def py_str.simps S_def)
subsection \<open>The control-flow classifier against its specification (claim C4)\<close>

text \<open>
  The three conditions of the specification, keywords read without regard to case and
  white space around a statement ignored. The statements of a line are its pieces
  between the colons outside strings; the last statement is the last piece.
\<close>

fun split_statements :: "pystr \<Rightarrow> bool \<Rightarrow> pystr \<Rightarrow> pystr list" where
  "split_statements [] in_string stmt = [stmt]"
| "split_statements (c # rest) in_string stmt =
     (if c = DQUOTE then split_statements rest (\<not> in_string) (stmt @ [c])
      else if c = COLON \<and> \<not> in_string then stmt # split_statements rest in_string []
      else split_statements rest in_string (stmt @ [c]))"

definition last_statement :: "pystr \<Rightarrow> pystr" where
  "last_statement code = last (split_statements code False [])"

text \<open>
  A \<^verbatim>\<open>THEN\<close> outside strings somewhere in the text, and an \<^verbatim>\<open>IF\<close> outside strings with a
  \<^verbatim>\<open>THEN\<close> outside strings after it; \<open>in_string\<close> says whether the text starts inside a
  string.
\<close>

fun then_outside :: "pystr \<Rightarrow> bool \<Rightarrow> bool" where
  "then_outside [] in_string = False"
| "then_outside (c # rest) in_string =
     (if c = DQUOTE then then_outside rest (\<not> in_string)
      else (\<not> in_string \<and> startswith (py_upper (c # rest)) (S ''THEN''))
           \<or> then_outside rest in_string)"

fun if_then_outside :: "pystr \<Rightarrow> bool \<Rightarrow> bool" where
  "if_then_outside [] in_string = False"
| "if_then_outside (c # rest) in_string =
     (if c = DQUOTE then if_then_outside rest (\<not> in_string)
      else (\<not> in_string \<and> startswith (py_upper (c # rest)) (S ''IF'')
              \<and> then_outside (drop 2 (c # rest)) in_string)
           \<or> if_then_outside rest in_string)"

definition classifier_spec :: "pystr \<Rightarrow> bool" where
  "classifier_spec code0 =
     (let code = py_rstrip code0;
          stmt = py_strip (last_statement code);
          operand = py_strip (drop 4 stmt)
      in py_upper stmt \<in> {S ''RETURN'', S ''END'', S ''STOP''}
         \<or> (startswith (py_upper stmt) (S ''GOTO'') \<and> operand \<noteq> [] \<and> py_isdigit (hd operand))
         \<or> if_then_outside code False)"

lemma classifier_gosub:
  "\<not> ends_with_control_flow (S ''GOSUB 100'') \<and> \<not> classifier_spec (S ''GOSUB 100'')"
  by (simp add: classifier_eval classifier_spec_def last_statement_def)

text \<open>The first loop finds the start of the last statement.\<close>

lemma find_last_colon_default:
  "find_last_colon suf i s lc0
   = (if find_last_colon suf i s (-1) = -1 then lc0 else find_last_colon suf i s (-1))"
proof (induction suf arbitrary: i s lc0)
  case Nil
  show ?case by simp
next
  case (Cons c suf)
  consider (quote) "c = DQUOTE" | (colon) "c \<noteq> DQUOTE" "c = COLON" "\<not> s"
    | (other) "c \<noteq> DQUOTE" "\<not> (c = COLON \<and> \<not> s)"
    by blast
  then show ?case
  proof cases
    case quote
    then have eq: "\<And>x. find_last_colon (c # suf) i s x = find_last_colon suf (i + 1) (\<not> s) x"
      by simp
    show ?thesis unfolding eq by (rule Cons.IH)
  next
    case colon
    then have eq: "\<And>x. find_last_colon (c # suf) i s x = find_last_colon suf (i + 1) s (int i)"
      by simp
    have "find_last_colon suf (i + 1) s (int i)
          = (if find_last_colon suf (i + 1) s (-1) = -1 then int i
             else find_last_colon suf (i + 1) s (-1))"
      by (rule Cons.IH)
    then have "find_last_colon suf (i + 1) s (int i) \<noteq> -1"
      by (cases "find_last_colon suf (i + 1) s (-1) = -1") simp_all
    then show ?thesis unfolding eq by simp
  next
    case other
    then have eq: "\<And>x. find_last_colon (c # suf) i s x = find_last_colon suf (i + 1) s x"
      by auto
    show ?thesis unfolding eq by (rule Cons.IH)
  qed
qed

lemma find_last_colon_range:
  "find_last_colon suf i s (-1) = -1 \<or> int i \<le> find_last_colon suf i s (-1)"
proof (induction suf arbitrary: i s)
  case Nil
  show ?case by simp
next
  case (Cons c suf)
  consider (quote) "c = DQUOTE" | (colon) "c \<noteq> DQUOTE" "c = COLON" "\<not> s"
    | (other) "c \<noteq> DQUOTE" "\<not> (c = COLON \<and> \<not> s)"
    by blast
  then show ?case
  proof cases
    case quote
    then have "find_last_colon (c # suf) i s (-1) = find_last_colon suf (i + 1) (\<not> s) (-1)"
      by simp
    with Cons.IH[of "i + 1" "\<not> s"] show ?thesis by auto
  next
    case colon
    then have "find_last_colon (c # suf) i s (-1) = find_last_colon suf (i + 1) s (int i)"
      by simp
    also have "\<dots> = (if find_last_colon suf (i + 1) s (-1) = -1 then int i
             else find_last_colon suf (i + 1) s (-1))"
      by (rule find_last_colon_default)
    finally show ?thesis using Cons.IH[of "i + 1" s] by auto
  next
    case other
    then have "find_last_colon (c # suf) i s (-1) = find_last_colon suf (i + 1) s (-1)"
      by auto
    with Cons.IH[of "i + 1" s] show ?thesis by auto
  qed
qed

lemma split_statements_nonempty: "split_statements suf s stmt \<noteq> []"
  by (induction suf arbitrary: s stmt) auto

lemma last_split_statements:
  "last (split_statements suf s stmt)
   = (if 0 \<le> find_last_colon suf i s (-1)
      then drop (nat (find_last_colon suf i s (-1) + 1) - i) suf
      else stmt @ suf)"
proof (induction suf arbitrary: i s stmt)
  case Nil
  show ?case by simp
next
  case (Cons c suf)
  let ?lc = "find_last_colon suf (i + 1) s (-1)"
  let ?lq = "find_last_colon suf (i + 1) (\<not> s) (-1)"
  have shift: "\<And>lc. int (i + 1) \<le> lc \<Longrightarrow>
      drop (nat (lc + 1) - i) (c # suf) = drop (nat (lc + 1) - (i + 1)) suf"
  proof -
    fix lc :: int
    assume "int (i + 1) \<le> lc"
    then have "nat (lc + 1) - i = Suc (nat (lc + 1) - (i + 1))" by arith
    then show "drop (nat (lc + 1) - i) (c # suf) = drop (nat (lc + 1) - (i + 1)) suf"
      by simp
  qed
  consider (quote) "c = DQUOTE" | (colon) "c \<noteq> DQUOTE" "c = COLON" "\<not> s"
    | (other) "c \<noteq> DQUOTE" "\<not> (c = COLON \<and> \<not> s)"
    by blast
  then show ?case
  proof cases
    case quote
    have flc: "find_last_colon (c # suf) i s (-1) = ?lq" using quote by simp
    from find_last_colon_range[of suf "i + 1" "\<not> s"]
    show ?thesis
      unfolding flc using quote Cons.IH[of "\<not> s" "stmt @ [c]" "i + 1"] shift[of ?lq]
      by auto
  next
    case colon
    have flc: "find_last_colon (c # suf) i s (-1)
               = (if ?lc = -1 then int i else ?lc)"
      using colon find_last_colon_default[of suf "i + 1" s "int i"] by simp
    have lst: "last (split_statements (c # suf) s stmt) = last (split_statements suf s [])"
      using colon split_statements_nonempty[of suf s "[]"] by simp
    have first: "drop (nat (int i + 1) - i) (c # suf) = suf"
    proof -
      have "nat (int i + 1) - i = Suc 0" by arith
      then show ?thesis by simp
    qed
    from find_last_colon_range[of suf "i + 1" s]
    show ?thesis
      unfolding flc lst using Cons.IH[of s "[]" "i + 1"] shift[of ?lc] first
      by auto
  next
    case other
    have flc: "find_last_colon (c # suf) i s (-1) = ?lc" using other by auto
    from find_last_colon_range[of suf "i + 1" s]
    show ?thesis
      unfolding flc using other Cons.IH[of s "stmt @ [c]" "i + 1"] shift[of ?lc]
      by auto
  qed
qed

lemma last_statement_find_last_colon:
  "last_statement code
   = (if 0 \<le> find_last_colon code 0 False (-1)
      then drop (nat (find_last_colon code 0 False (-1) + 1)) code
      else code)"
  using last_split_statements[of code False "[]" 0] by (simp add: last_statement_def)


text \<open>
  The inner loop finds a \<^verbatim>\<open>THEN\<close> outside strings when there is one; when there is
  none it leaves \<^verbatim>\<open>in_string\<close> as it is at the end of the line.
\<close>

lemma then_scan_found: "fst (then_scan suf s) = then_outside suf s"
  by (induction suf arbitrary: s) auto

lemma then_scan_state: "\<not> then_outside suf s \<Longrightarrow> snd (then_scan suf s) = quote_state suf s"
  by (induction suf arbitrary: s) (auto split: if_splits)

lemma startswith_IF:
  assumes "startswith (py_upper (c # rest)) (S ''IF'')"
  shows "c \<noteq> DQUOTE \<and> (\<exists>f rest'. rest = f # rest' \<and> f \<noteq> DQUOTE)"
proof (cases rest)
  case Nil
  with assms show ?thesis by (simp add: startswith_def py_upper_def S_def)
next
  case (Cons f rest')
  with assms show ?thesis
    by (auto simp: startswith_def py_upper_def S_def upper_char_def split: if_splits)
qed

text \<open>
  When the line ends outside a string (its double quotes are balanced), the outer loop
  reads every character with the right value of \<^verbatim>\<open>in_string\<close>.
\<close>

lemma if_scan_balanced:
  "\<not> quote_state suf s \<Longrightarrow> if_scan suf s = if_then_outside suf s"
proof (induction suf arbitrary: s)
  case Nil
  show ?case by simp
next
  case (Cons c rest)
  show ?case
  proof (cases "c = DQUOTE")
    case True
    with Cons.prems have "\<not> quote_state rest (\<not> s)" by simp
    with Cons.IH[of "\<not> s"] True show ?thesis by simp
  next
    case notquote: False
    with Cons.prems have end_state: "\<not> quote_state rest s" by simp
    note IH = Cons.IH[OF end_state]
    show ?thesis
    proof (cases "\<not> s \<and> startswith (py_upper (c # rest)) (S ''IF'')")
      case False
      with notquote IH show ?thesis by auto
    next
      case True
      then obtain f rest' where rest: "rest = f # rest'" "f \<noteq> DQUOTE"
        using startswith_IF[of c rest] by auto
      show ?thesis
      proof (cases "then_outside (drop 2 (c # rest)) s")
        case found: True
        then have "fst (then_scan (drop 2 (c # rest)) s)" by (simp add: then_scan_found)
        with notquote True found show ?thesis
          by (simp add: case_prod_beta)
      next
        case notfound: False
        then have "snd (then_scan (drop 2 (c # rest)) s) = quote_state (drop 2 (c # rest)) s"
          by (rule then_scan_state)
        also have "\<dots> = quote_state rest s" using rest by simp
        also have "\<dots> = s" using end_state True by simp
        finally have state: "snd (then_scan (drop 2 (c # rest)) s) = s" .
        from notfound have "\<not> fst (then_scan (drop 2 (c # rest)) s)"
          by (simp add: then_scan_found)
        with notquote True notfound state IH show ?thesis
          by (simp add: case_prod_beta)
      qed
    qed
  qed
qed

lemma count_list_rstrip: "count_list (py_rstrip code) DQUOTE = count_list code DQUOTE"
proof -
  have ws: "\<forall>c\<in>set (takeWhile py_isspace (rev code)). c \<noteq> DQUOTE"
    by (auto dest!: set_takeWhileD simp: py_isspace_def)
  have "code = py_rstrip code @ rev (takeWhile py_isspace (rev code))"
    unfolding py_rstrip_def rev_append[symmetric] takeWhile_dropWhile_id by simp
  then have "count_list code DQUOTE
        = count_list (py_rstrip code) DQUOTE
          + count_list (rev (takeWhile py_isspace (rev code))) DQUOTE"
    by (metis count_list_append)
  moreover have "count_list (rev (takeWhile py_isspace (rev code))) DQUOTE = 0"
    using ws by (auto simp: count_list_0_iff)
  ultimately show ?thesis by simp
qed

text \<open>
  On every line whose double quotes are balanced the classifier is the specification.
\<close>

lemma classifier_balanced:
  assumes "even (count_list code0 DQUOTE)"
  shows "ends_with_control_flow code0 = classifier_spec code0"
proof -
  let ?code = "py_rstrip code0"
  have "\<not> quote_state ?code False"
    using assms by (simp add: quote_state_parity count_list_rstrip)
  then have scan: "if_scan ?code False = if_then_outside ?code False"
    by (rule if_scan_balanced)
  show ?thesis
  proof (cases "?code = []")
    case True
    have ls: "last_statement [] = []" by (simp add: last_statement_def)
    have st: "py_strip [] = []" by (simp add: py_strip_def py_rstrip_def)
    have "\<not> classifier_spec code0"
      unfolding classifier_spec_def Let_def True ls st
      by (simp add: py_upper_def startswith_def S_def)
    moreover have "\<not> ends_with_control_flow code0"
      unfolding ends_with_control_flow_def Let_def True by simp
    ultimately show ?thesis by simp
  next
    case False
    then show ?thesis
      unfolding ends_with_control_flow_def classifier_spec_def Let_def scan
        last_statement_find_last_colon
      by auto
  qed
qed


text \<open>
  Claim C4 says that the classifier returns true exactly under the three conditions.
  On lines whose double quotes are balanced it does (\<open>classifier_balanced\<close>). On a line
  that ends inside a string it can return true when none of the conditions holds: the
  inner loop that looks for \<^verbatim>\<open>THEN\<close> leaves \<^verbatim>\<open>in_string\<close> set, the outer loop goes on
  with that value and reads the inside of the string as code. In
  \<^verbatim>\<open>IF A GOTO 50:PRINT "IF X THEN Y\<close> the last statement is a \<^verbatim>\<open>PRINT\<close>, and the only
  \<^verbatim>\<open>THEN\<close> is inside the string; the classifier returns true.
\<close>

theorem classifier_reads_string_as_code:
  \<open>ends_with_control_flow (S ''IF A GOTO 50:PRINT "IF X THEN Y'')
   \<and> \<not> classifier_spec (S ''IF A GOTO 50:PRINT "IF X THEN Y'')\<close>
proof
  show \<open>ends_with_control_flow (S ''IF A GOTO 50:PRINT "IF X THEN Y'')\<close>
    by (simp add: classifier_eval)
  show \<open>\<not> classifier_spec (S ''IF A GOTO 50:PRINT "IF X THEN Y'')\<close>
    by (simp add: classifier_spec_def last_statement_def py_rstrip_def py_strip_def
        py_isspace_def py_upper_def upper_char_def py_isdigit_def startswith_def S_def Let_def)
qed

subsection \<open>A reference merged into an open string (claim C2)\<close>

lemmas pack_line_eval =
  pack_line_def remove_comment_def remove_comment_loop.simps pack_spaces_def
  pack_spaces_loop.simps remove_print_semicolons_def remove_print_semicolons_loop.simps
  py_rstrip_def py_isspace_def py_upper_def upper_char_def startswith_def S_def Let_def

lemma pack_line_open_string: \<open>pack_line (S ''PRINT "abc'') = S ''PRINT"abc''\<close>
  by (simp add: pack_line_eval)

lemma pack_line_closed_string: \<open>pack_line (S ''PRINT "abc"'') = S ''PRINT"abc"''\<close>
  by (simp add: pack_line_eval)

lemma pack_line_goto: "pack_line (S ''GOTO 30'') = S ''GOTO30''"
  by (simp add: pack_line_eval)

lemma pack_line_end: "pack_line (S ''END'') = S ''END''"
  by (simp add: pack_line_eval)

lemmas scan_eval =
  scan_targets.simps number_run.simps first_keyword_def jump_keywords_def startswith_def
  py_upper_def upper_char_def py_isdigit_def py_int_digits_def max_str_digits_def
  int_of_digits_def S_def Let_def remove_comment_def remove_comment_loop.simps py_rstrip_def
  py_isspace_def

lemma targets_open_string:
  \<open>find_line_targets [(10, S ''PRINT"abc''), (20, S ''GOTO30''), (30, S ''END'')] = Inr {30}\<close>
  by (simp add: find_line_targets_def scan_eval)

lemma targets_closed_string:
  \<open>find_line_targets [(10, S ''PRINT"abc"''), (20, S ''GOTO30''), (30, S ''END'')] = Inr {30}\<close>
  by (simp add: find_line_targets_def scan_eval)


lemma merged_open_string:
  \<open>merge_lines [(10, S ''PRINT"abc''), (20, S ''GOTO30''), (30, S ''END'')] {30} 255
   = [(Some 10, S ''PRINT"abc:GOTO30''), (Some 30, S ''END'')]\<close>
  by (simp add: merge_eval classifier_eval)

lemma merged_closed_string:
  \<open>merge_lines [(10, S ''PRINT"abc"''), (20, S ''GOTO30''), (30, S ''END'')] {30} 255
   = [(Some 10, S ''PRINT"abc":GOTO30''), (Some 30, S ''END'')]\<close>
  by (simp add: merge_eval classifier_eval)

lemma line_map_two_anchors:
  "build_line_map [(Some 10, a), (Some 30, b)] 1 Map.empty = [10 \<mapsto> 1, 30 \<mapsto> 2]"
  by (simp add: numeral_2_eq_2)

lemmas update_eval =
  update_line_references_def update_loop.simps rewrite_numbers.simps first_keyword_def
  jump_keywords_def startswith_def py_upper_def upper_char_def py_isdigit_def
  py_int_digits_def py_str_checked_def max_str_digits_def int_of_digits_def dict_get_def
  py_str.simps S_def Let_def

lemma update_open_string:
  \<open>update_line_references (S ''PRINT"abc:GOTO30'') [10 \<mapsto> 1, 30 \<mapsto> 2]
   = Inr (S ''PRINT"abc:GOTO30'')\<close>
  by (simp add: update_eval)

lemma update_closed_string:
  \<open>update_line_references (S ''PRINT"abc":GOTO30'') [10 \<mapsto> 1, 30 \<mapsto> 2]
   = Inr (S ''PRINT"abc":GOTO2'')\<close>
  by (simp add: update_eval)

lemma update_end:
  \<open>update_line_references (S ''END'') [10 \<mapsto> 1, 30 \<mapsto> 2] = Inr (S ''END'')\<close>
  by (simp add: update_eval)

lemmas trailing_quote_eval =
  remove_trailing_quote_def endswith_quote_def py_rstrip_def py_isspace_def S_def

lemma final_lines_two_anchors:
  assumes "update_line_references a [10 \<mapsto> 1, 30 \<mapsto> 2] = Inr a'"
    and "update_line_references b [10 \<mapsto> 1, 30 \<mapsto> 2] = Inr b'"
  shows "final_lines_loop [10 \<mapsto> 1, 30 \<mapsto> 2] [(Some 10, a), (Some 30, b)] 1 []
         = Inr [(1, a'), (2, b')]"
  using assms by (simp add: Let_def)

lemma pack_open_string:
  \<open>pack_basic_file [(10, S ''PRINT "abc''), (20, S ''GOTO 30''), (30, S ''END'')]
   = Inr [(1, S ''PRINT"abc:GOTO30''), (2, S ''END'')]\<close>
proof -
  have packed: "map (\<lambda>(num, code). (num, pack_line code))
                  [(10, S ''PRINT \"abc''), (20, S ''GOTO 30''), (30, S ''END'')]
                = [(10, S ''PRINT\"abc''), (20, S ''GOTO30''), (30, S ''END'')]"
    by (simp add: pack_line_open_string pack_line_goto pack_line_end)
  have "pack_basic_file [(10, S ''PRINT \"abc''), (20, S ''GOTO 30''), (30, S ''END'')]
        = Inr [(1, remove_trailing_quote (S ''PRINT\"abc:GOTO30'')),
               (2, remove_trailing_quote (S ''END''))]"
    unfolding pack_basic_file_def Let_def packed targets_open_string sum.case
      merged_open_string line_map_two_anchors
      final_lines_two_anchors[OF update_open_string update_end]
    by simp
  then show ?thesis by (simp add: trailing_quote_eval)
qed

lemma pack_closed_string:
  \<open>pack_basic_file [(10, S ''PRINT "abc"''), (20, S ''GOTO 30''), (30, S ''END'')]
   = Inr [(1, S ''PRINT"abc":GOTO2''), (2, S ''END'')]\<close>
proof -
  have packed: "map (\<lambda>(num, code). (num, pack_line code))
                  [(10, S ''PRINT \"abc\"''), (20, S ''GOTO 30''), (30, S ''END'')]
                = [(10, S ''PRINT\"abc\"''), (20, S ''GOTO30''), (30, S ''END'')]"
    by (simp add: pack_line_closed_string pack_line_goto pack_line_end)
  have "pack_basic_file [(10, S ''PRINT \"abc\"''), (20, S ''GOTO 30''), (30, S ''END'')]
        = Inr [(1, remove_trailing_quote (S ''PRINT\"abc\":GOTO2'')),
               (2, remove_trailing_quote (S ''END''))]"
    unfolding pack_basic_file_def Let_def packed targets_closed_string sum.case
      merged_closed_string line_map_two_anchors
      final_lines_two_anchors[OF update_closed_string update_end]
    by simp
  then show ?thesis by (simp add: trailing_quote_eval)
qed

text \<open>
  The first part of the claim holds in general: a line whose number is a target starts a
  physical line of its own, anchored at its number.
\<close>

lemma merge_step_target:
  assumes "fst L \<in> T" and "current_start_line st = Some n"
  shows "merge_step T M st L
   = \<lparr>merged = merged st @ flush_current M n (current_code st),
      current_start_line = Some (fst L), current_code = [snd L],
      prevent_merge = ends_with_control_flow (snd L)\<rparr>"
  using assms by (simp add: merge_step_def Let_def)

lemma merge_lines_split_target:
  assumes "fst L \<in> T"
  shows "merge_lines (pre @ L # post) T M = merge_lines pre T M @ merge_lines (L # post) T M"
proof (cases pre rule: rev_cases)
  case Nil
  then show ?thesis
    by (simp add: merge_lines_def final_flush_def initial_merge_state_def)
next
  case (snoc pre' L0)
  let ?step = "merge_step T M"
  define s1 where "s1 = foldl ?step initial_merge_state pre"
  have s1_step: "s1 = ?step (foldl ?step initial_merge_state pre') L0"
    by (simp add: s1_def snoc)
  obtain n where n: "current_start_line s1 = Some n"
    using merge_step_fields(1)[of T M "foldl ?step initial_merge_state pre'" L0]
    by (auto simp: s1_step)
  have "merge_lines pre T M = final_flush M s1"
    unfolding merge_lines_def s1_def ..
  then have first: "merge_lines pre T M = merged s1 @ flush_current M n (current_code s1)"
    by (simp add: final_flush_def n)
  let ?s2 = "?step initial_merge_state L"
  have "?step s1 L = ?s2\<lparr>merged := merge_lines pre T M @ merged ?s2\<rparr>"
    by (simp add: merge_step_target[OF assms n] merge_step_initial first)
  then have "foldl ?step (?step s1 L) post
      = (foldl ?step ?s2 post)\<lparr>merged := merge_lines pre T M @ merged (foldl ?step ?s2 post)\<rparr>"
    by (simp only: foldl_merge_step_prepend)
  then have "final_flush M (foldl ?step (?step s1 L) post)
      = merge_lines pre T M @ final_flush M (foldl ?step ?s2 post)"
    by (simp only: final_flush_prepend)
  moreover have "foldl ?step initial_merge_state (pre @ L # post) = foldl ?step (?step s1 L) post"
    by (simp add: s1_def)
  ultimately show ?thesis
    by (simp add: merge_lines_def)
qed

lemma merge_lines_target_anchor:
  assumes "fst L \<in> T"
  shows "\<exists>u. (Some (fst L), snd L @ u) \<in> set (merge_lines (pre @ L # post) T M)"
proof -
  from merge_lines_first_line[of L post T M]
  obtain u where "merge_lines (L # post) T M \<noteq> []"
    "hd (merge_lines (L # post) T M) = (Some (fst L), snd L @ u)" by auto
  then have "(Some (fst L), snd L @ u) \<in> set (merge_lines (L # post) T M)"
    by (metis list.set_sel(1))
  then show ?thesis
    unfolding merge_lines_split_target[OF assms] by auto
qed

text \<open>
  Claim C2 says that every operand of a jump keyword that names an existing line is, in
  the final output, the new number of that line. In the program
  \<^verbatim>\<open>10 PRINT "abc\<close>, \<^verbatim>\<open>20 GOTO 30\<close>, \<^verbatim>\<open>30 END\<close> the operand 30 of line 20 stands outside
  strings, line 30 stays the anchor of a physical line of its own and gets the new number
  2, but the operand is still 30 in the output: line 20 was merged behind the open
  string of line 10, and the fixup, which reads the merged line, takes it for string
  content. With the string of line 10 closed, the same program is packed as the claim
  says.
\<close>

theorem pack_reference_in_open_string:
  \<open>pack_basic_file [(10, S ''PRINT "abc''), (20, S ''GOTO 30''), (30, S ''END'')]
     = Inr [(1, S ''PRINT"abc:GOTO30''), (2, S ''END'')]
   \<and> pack_basic_file [(10, S ''PRINT "abc"''), (20, S ''GOTO 30''), (30, S ''END'')]
     = Inr [(1, S ''PRINT"abc":GOTO2''), (2, S ''END'')]\<close>
  using pack_open_string pack_closed_string by (rule conjI)


end
